theory Spec2Isabelle
  imports Complex_Main
begin

section \<open>Numbers and vectors\<close>

subsection \<open>The arithmetic of the mesh builder\<close>

text \<open>
  JavaScript numbers are IEEE 754 doubles, and the mesh builder computes with them. Its
  model takes the arithmetic as a parameter, over a type \<open>'a\<close> of values that is left
  open: the operators \<open>+\<close>, binary and unary \<open>-\<close>, \<open>*\<close> and \<open>/\<close>, the functions \<open>Math.cos\<close>
  and \<open>Math.sin\<close>, the constant \<open>Math.PI\<close>, the number that a count or a literal denotes,
  and the value \<open>undefined\<close> that reading past the end of an array yields. What is proved
  of the builder for every arithmetic holds of the doubles.
\<close>

record 'a arith =
  fadd :: "'a \<Rightarrow> 'a \<Rightarrow> 'a"
  fsub :: "'a \<Rightarrow> 'a \<Rightarrow> 'a"
  fneg :: "'a \<Rightarrow> 'a"
  fmul :: "'a \<Rightarrow> 'a \<Rightarrow> 'a"
  fdiv :: "'a \<Rightarrow> 'a \<Rightarrow> 'a"
  fcos :: "'a \<Rightarrow> 'a"
  fsin :: "'a \<Rightarrow> 'a"
  fpi :: 'a
  fnum :: "nat \<Rightarrow> 'a"
  fundef :: 'a

text \<open>Reading \<open>c[i]\<close>: the entry, or \<open>undefined\<close> outside the array.\<close>

definition coord :: "'a arith \<Rightarrow> 'a list \<Rightarrow> nat \<Rightarrow> 'a" where
  "coord A c i = (if i < length c then c ! i else fundef A)"

text \<open>
  Modelled from the spec: the constructor \<open>vec4\<close> of the matrix/vector package MV.js,
  whose code is not part of the sources. Its documentation reads: construct a 4 element
  vector; extra values are ignored and missing values are assumed to be 0. The argument
  list is given flattened, and the number 0 is the first argument \<open>z\<close>.
\<close>

definition vec4 :: "'a \<Rightarrow> 'a list \<Rightarrow> 'a list" where
  "vec4 z xs = take 4 (xs @ replicate 4 z)"

subsection \<open>Exact and rounded numbers\<close>

text \<open>
  Two arithmetics on numbers, for the statements that depend on how the operations
  compute. A finite number is \<open>Some\<close> of a real number; \<open>None\<close> stands for any other value
  of an expression (\<open>undefined\<close>, \<open>NaN\<close>, an infinity), which the model does not tell
  apart: an operation on such a value, and a division by zero, yields such a value (but
  for a quotient by an infinity, which is 0; the builder divides by the count \<open>n\<close> only).
  Each operation rounds the exact result with the function \<open>rnd\<close>, which yields \<open>None\<close>
  for a result that is too large. \<open>Math.PI\<close> is the double nearest to \<open>\<pi>\<close>. ECMAScript
  leaves the results of \<open>Math.cos\<close> and \<open>Math.sin\<close> open up to an approximation, except
  that the cosine of 0 is 1 and the sine of 0 is 0; they are taken as correctly rounded
  here.
\<close>

definition lift1 :: "(real \<Rightarrow> real option) \<Rightarrow> (real \<Rightarrow> real) \<Rightarrow> real option \<Rightarrow> real option" where
  "lift1 rnd f x = (case x of None \<Rightarrow> None | Some a \<Rightarrow> rnd (f a))"

definition lift2 ::
  "(real \<Rightarrow> real option) \<Rightarrow> (real \<Rightarrow> real \<Rightarrow> real) \<Rightarrow> real option \<Rightarrow> real option \<Rightarrow> real option" where
  "lift2 rnd f x y = (case x of None \<Rightarrow> None
                      | Some a \<Rightarrow> (case y of None \<Rightarrow> None | Some b \<Rightarrow> rnd (f a b)))"

definition arith_of :: "(real \<Rightarrow> real option) \<Rightarrow> real option arith" where
  "arith_of rnd =
     \<lparr>fadd = lift2 rnd (+),
      fsub = lift2 rnd (-),
      fneg = map_option uminus,
      fmul = lift2 rnd (*),
      fdiv = (\<lambda>x y. if y = Some 0 then None else lift2 rnd (/) x y),
      fcos = lift1 rnd cos,
      fsin = lift1 rnd sin,
      fpi = rnd pi,
      fnum = (\<lambda>k. rnd (real k)),
      fundef = None\<rparr>"

text \<open>Exact arithmetic: no operation rounds, and no result is too large.\<close>

definition exact :: "real option arith" where
  "exact = arith_of Some"

text \<open>
  The rounding \<open>fl\<close> of binary64: to the nearest number with 53 significant bits, a tie to
  the one with an even last bit; below the smallest normal number, \<open>pow2 (- 1022)\<close>, the
  spacing stays that of the smallest normal numbers. \<open>pow2 k\<close> is 2 to the power \<open>k\<close>. A
  result that rounds to a magnitude of \<open>pow2 1024\<close> or more becomes an infinity. The sign
  of zero is not modelled.
\<close>

definition pow2 :: "int \<Rightarrow> real" where
  "pow2 k = (if 0 \<le> k then 2 ^ nat k else 1 / 2 ^ nat (- k))"

definition round_even :: "real \<Rightarrow> int" where
  "round_even x =
     (let f = \<lfloor>x\<rfloor>; d = x - of_int f
      in if d < 1 / 2 then f else if 1 / 2 < d then f + 1 else if even f then f else f + 1)"

definition fl :: "real \<Rightarrow> real" where
  "fl x = (if x = 0 then 0
           else let e = max \<lfloor>log 2 \<bar>x\<bar>\<rfloor> (- 1022) - 52
                in of_int (round_even (x / pow2 e)) * pow2 e)"

definition double :: "real \<Rightarrow> real option" where
  "double x = (if \<bar>fl x\<bar> < pow2 1024 then Some (fl x) else None)"

definition binary64 :: "real option arith" where
  "binary64 = arith_of double"


subsection \<open>Vectors of real numbers\<close>

text \<open>
  The normal calculator does no arithmetic of its own: it passes vectors to the functions
  of MV.js, which are parameters of its model (see there). Its vectors are lists of real
  numbers, of which the finite doubles are some.
\<close>

type_synonym vec = "real list"

text \<open>
  Modelled from the spec: the functions \<open>add\<close>, \<open>subtract\<close>, \<open>cross\<close>, \<open>length\<close> and
  \<open>normalize\<close> of MV.js, whose code is not part of the sources, in exact arithmetic. Their
  documentation reads: element-wise addition of two vectors; element-wise subtraction of
  two vectors; cross product of two vectors; length/magnitude of a vector (square root of
  dot product with itself); normalize the vector so that its length/magnitude is 1. The
  cross product is taken of the first three components; as the normal calculator adds it
  to 4-component accumulators, it carries a fourth component 0. Of \<open>normalize\<close> the
  specification says that zero vectors remain zero. The function \<open>length\<close> is called
  \<open>vlength\<close> here.
\<close>

definition add :: "vec \<Rightarrow> vec \<Rightarrow> vec" where
  "add u v = map2 (+) u v"

definition subtract :: "vec \<Rightarrow> vec \<Rightarrow> vec" where
  "subtract u v = map2 (-) u v"

definition cross :: "vec \<Rightarrow> vec \<Rightarrow> vec" where
  "cross u v = [u ! 1 * v ! 2 - u ! 2 * v ! 1,
                u ! 2 * v ! 0 - u ! 0 * v ! 2,
                u ! 0 * v ! 1 - u ! 1 * v ! 0,
                0]"

definition vlength :: "vec \<Rightarrow> real" where
  "vlength u = sqrt (sum_list (map (\<lambda>x. x * x) u))"

definition normalize :: "vec \<Rightarrow> vec" where
  "normalize u = (if vlength u = 0 then u else map (\<lambda>x. x / vlength u) u)"


section \<open>Mesh builder\<close>

text \<open>
  The builders push onto the caller's \<open>verts\<close> and \<open>inds\<close> arrays; the model passes the
  arrays in and returns them extended. A \<open>for\<close> loop over \<open>i = 0, ..., n - 1\<close> whose body
  pushes is a \<open>fold\<close> over \<open>[0..<n]\<close>. Index entries are integers; the coordinates are
  values of the arithmetic \<open>A\<close>, and the count \<open>n\<close> is a natural number.
\<close>

text \<open>
  \<open>circle(c, r, n, verts)\<close>: the vertex pushed in round \<open>i\<close>, with
  \<open>theta = 2*Math.PI/n\<close>.
\<close>

definition circle_vert :: "'a arith \<Rightarrow> 'a list \<Rightarrow> 'a \<Rightarrow> nat \<Rightarrow> nat \<Rightarrow> 'a list" where
  "circle_vert A c r n i =
     (let theta = fdiv A (fmul A (fnum A 2) (fpi A)) (fnum A n)
      in vec4 (fnum A 0)
           [fadd A (coord A c 0) (fmul A (fcos A (fmul A (fnum A i) theta)) r), coord A c 2,
            fadd A (coord A c 1) (fmul A (fsin A (fmul A (fnum A i) theta)) r), fnum A 1])"

definition circle :: "'a arith \<Rightarrow> 'a list \<Rightarrow> 'a \<Rightarrow> nat \<Rightarrow> 'a list list \<Rightarrow> 'a list list" where
  "circle A c r n verts = fold (\<lambda>i vs. vs @ [circle_vert A c r n i]) [0..<n] verts"

text \<open>\<open>cylinder(c, r, n, h, verts, inds)\<close>.\<close>

definition cylinder ::
  "'a arith \<Rightarrow> 'a list \<Rightarrow> 'a \<Rightarrow> nat \<Rightarrow> 'a \<Rightarrow> 'a list list \<Rightarrow> int list
     \<Rightarrow> 'a list list \<times> int list" where
  "cylinder A c r n h verts inds =
     (let offset = length verts;
          verts1 = circle A (vec4 (fnum A 0) [coord A c 0, coord A c 1, h]) r n verts;
          verts2 = circle A (vec4 (fnum A 0) [coord A c 0, coord A c 1, fneg A h]) r n verts1;
          inds1 = fold (\<lambda>i is. is @ [int i + int offset] @ [int i + int n + int offset])
                    [0..<n] inds;
          inds2 = inds1 @ [int offset];
          inds3 = inds2 @ [int offset + int n];
          inds4 = inds3 @ [int offset + int n]
      in (verts2, inds4))"

text \<open>\<open>add_truncated_cone(mult_1, mult_2, n, offset, inds)\<close>.\<close>

definition add_truncated_cone :: "nat \<Rightarrow> nat \<Rightarrow> nat \<Rightarrow> nat \<Rightarrow> int list \<Rightarrow> int list" where
  "add_truncated_cone mult_1 mult_2 n offset inds =
     (let inds1 = inds @ [int mult_1 * int n + int offset];
          inds2 = fold (\<lambda>i is. is @ [int i + int mult_1 * int n + int offset]
                                    @ [int i + int mult_2 * int n + int offset])
                    [0..<n] inds1;
          inds3 = inds2 @ [int mult_1 * int n + int offset];
          inds4 = inds3 @ [int mult_2 * int n + int offset];
          inds5 = inds4 @ [int mult_2 * int n + int offset]
      in inds5)"

text \<open>
  \<open>add_circle_fill(n, offset, inds, reverse)\<close>. The loop runs while \<open>i < n / 2\<close> with the
  division of numbers, that is for \<open>i = 0, ..., \<lceil>n / 2\<rceil> - 1\<close>. The optional argument
  \<open>reverse\<close> is \<open>None\<close> when it is not passed; the reversed branch is taken only for
  \<open>true\<close>.
\<close>

definition add_circle_fill :: "nat \<Rightarrow> nat \<Rightarrow> int list \<Rightarrow> bool option \<Rightarrow> int list" where
  "add_circle_fill n offset inds reverse =
     (let inds1 = inds @ [int offset];
          inds2 = inds1 @ [int offset]
      in if reverse \<noteq> Some True
         then fold (\<lambda>i is. is @ [int i + 1 + int offset] @ [int n - int i - 1 + int offset])
                [0..<(n + 1) div 2] inds2
         else fold (\<lambda>i is. is @ [int n - int i - 1 + int offset] @ [int i + 1 + int offset])
                [0..<(n + 1) div 2] inds2)"

text \<open>\<open>soda_can(c, r1, r2, n, h, verts, inds)\<close>.\<close>

definition soda_can ::
  "'a arith \<Rightarrow> 'a list \<Rightarrow> 'a \<Rightarrow> 'a \<Rightarrow> nat \<Rightarrow> 'a \<Rightarrow> 'a list list \<Rightarrow> int list
     \<Rightarrow> 'a list list \<times> int list" where
  "soda_can A c r1 r2 n h verts inds =
     (let offset = length verts;
          verts1 = circle A (vec4 (fnum A 0) [coord A c 0, coord A c 1, h]) r2 n verts;
          (verts2, inds1) =
            cylinder A c r1 n (fsub A h (fmul A (fnum A 2) (fsub A r1 r2))) verts1 inds;
          verts3 = circle A (vec4 (fnum A 0) [coord A c 0, coord A c 1, fneg A h]) r2 n verts2;
          inds2 = add_truncated_cone 0 1 n offset inds1;
          inds3 = add_truncated_cone 2 3 n offset inds2;
          inds4 = add_circle_fill n offset inds3 None;
          inds5 = add_circle_fill n (offset + 3 * n) inds4 (Some True)
      in (verts3, inds5))"

section \<open>Normal calculator\<close>

text \<open>
  \<open>calc_normals\<close> and \<open>ensure_vec4\<close> call the functions \<open>vec4\<close>, \<open>add\<close>, \<open>subtract\<close>, \<open>cross\<close>
  and \<open>normalize\<close> of MV.js, whose code is not part of the sources. They are parameters of
  the model: a record \<open>M\<close> of functions on vectors, of which nothing is assumed (as
  functions they have no effect on the caller's arrays). \<open>mv_vec4\<close> receives its argument
  list flattened.
\<close>

record mv =
  mv_vec4 :: "real list \<Rightarrow> vec"
  mv_add :: "vec \<Rightarrow> vec \<Rightarrow> vec"
  mv_subtract :: "vec \<Rightarrow> vec \<Rightarrow> vec"
  mv_cross :: "vec \<Rightarrow> vec \<Rightarrow> vec"
  mv_normalize :: "vec \<Rightarrow> vec"

text \<open>
  Modelled from the spec: the functions of MV.js, whose code is not part of the sources,
  as the section on vectors defines them from their documentation, in exact arithmetic.
  They are the parameters of the examples.
\<close>

definition mv_spec :: mv where
  "mv_spec = \<lparr>mv_vec4 = vec4 0, mv_add = add, mv_subtract = subtract, mv_cross = cross,
              mv_normalize = normalize\<rparr>"

text \<open>
  \<open>calc_normals(verts, inds, strip, skip)\<close> receives references to the caller's arrays.
  The model keeps arrays in a store: arrays of numbers (index sequences, skip lists) and
  arrays of vectors (vertex and normal arrays), each addressed by its position in the
  store. Allocating an array appends it to the store; writing to an array replaces the
  entry at its address. Index and skip entries are integers.
\<close>

datatype error = TypeError | InvalidArgument

type_synonym addr = nat

record store =
  num_arrays :: "int list list"
  vec_arrays :: "vec list list"

definition nums :: "store \<Rightarrow> addr \<Rightarrow> int list" where
  "nums s a = num_arrays s ! a"

definition vecs :: "store \<Rightarrow> addr \<Rightarrow> vec list" where
  "vecs s a = vec_arrays s ! a"

definition alloc_nums :: "int list \<Rightarrow> store \<Rightarrow> addr \<times> store" where
  "alloc_nums xs s = (length (num_arrays s), s\<lparr>num_arrays := num_arrays s @ [xs]\<rparr>)"

definition alloc_vecs :: "vec list \<Rightarrow> store \<Rightarrow> addr \<times> store" where
  "alloc_vecs xs s = (length (vec_arrays s), s\<lparr>vec_arrays := vec_arrays s @ [xs]\<rparr>)"

definition set_nums :: "addr \<Rightarrow> int list \<Rightarrow> store \<Rightarrow> store" where
  "set_nums a xs s = s\<lparr>num_arrays := (num_arrays s)[a := xs]\<rparr>"

definition set_vecs :: "addr \<Rightarrow> vec list \<Rightarrow> store \<Rightarrow> store" where
  "set_vecs a xs s = s\<lparr>vec_arrays := (vec_arrays s)[a := xs]\<rparr>"

text \<open>Reading \<open>xs[j]\<close>: \<open>None\<close> is \<open>undefined\<close>, the value read outside the array.\<close>

definition elem :: "'a list \<Rightarrow> int \<Rightarrow> 'a option" where
  "elem xs j = (if 0 \<le> j \<and> nat j < length xs then Some (xs ! nat j) else None)"

text \<open>
  \<open>ensure_vec4(v, last)\<close>. Reading \<open>v.length\<close> of \<open>undefined\<close> raises a type error; the
  function itself throws "invalid argument value".
\<close>

definition ensure_vec4 :: "mv \<Rightarrow> vec option \<Rightarrow> real \<Rightarrow> error + vec" where
  "ensure_vec4 M v last_value =
     (case v of
        None \<Rightarrow> Inl TypeError
      | Some v \<Rightarrow>
          if length v = 3 then Inr (mv_vec4 M (v @ [last_value]))
          else if length v \<noteq> 4 \<or> v ! 3 \<noteq> last_value then Inl InvalidArgument
          else Inr v)"

text \<open>
  The body of the accumulation loop of \<open>calc_normals\<close> for a triangle \<open>(j, k, l)\<close> at
  position \<open>i\<close> that is neither skipped nor degenerate. First the three vertices and the
  face normal, the value of the variable \<open>face_norm\<close>:
\<close>

definition face_norm :: "mv \<Rightarrow> bool \<Rightarrow> vec list \<Rightarrow> nat \<Rightarrow> int \<Rightarrow> int \<Rightarrow> int \<Rightarrow> error + vec" where
  "face_norm M strip verts i j k l =
     (case ensure_vec4 M (elem verts j) 1 of Inl e \<Rightarrow> Inl e | Inr a \<Rightarrow>
      case ensure_vec4 M (elem verts k) 1 of Inl e \<Rightarrow> Inl e | Inr b \<Rightarrow>
      case ensure_vec4 M (elem verts l) 1 of Inl e \<Rightarrow> Inl e | Inr c \<Rightarrow>
        Inr (mv_cross M (if strip \<and> i mod 2 \<noteq> 0 then mv_subtract M a b else mv_subtract M b a)
               (mv_subtract M a c)))"

text \<open>
  Then the three additions to \<open>normals\<close>. The three writes address entries of \<open>normals\<close>
  that exist, since \<open>verts[j]\<close>, \<open>verts[k]\<close> and \<open>verts[l]\<close> were read before and \<open>normals\<close> is
  as long as \<open>verts\<close>.
\<close>

definition add_face ::
  "mv \<Rightarrow> bool \<Rightarrow> vec list \<Rightarrow> nat \<Rightarrow> int \<Rightarrow> int \<Rightarrow> int \<Rightarrow> vec list \<Rightarrow> error + vec list" where
  "add_face M strip verts i j k l normals =
     (case face_norm M strip verts i j k l of
        Inl e \<Rightarrow> Inl e
      | Inr f \<Rightarrow>
          let normals1 = normals[nat j := mv_add M (normals ! nat j) f];
              normals2 = normals1[nat k := mv_add M (normals1 ! nat k) f];
              normals3 = normals2[nat l := mv_add M (normals2 ! nat l) f]
          in Inr normals3)"

text \<open>
  The accumulation loop \<open>for (let i = 0; i < inds.length - 2; i += inc)\<close>, from position
  \<open>i\<close> with skip cursor \<open>skipInd\<close>. The arguments \<open>verts\<close>, \<open>inds\<close>, \<open>skip\<close> and \<open>normals\<close>
  are addresses; every read goes to the store and the additions are written to the array
  at \<open>normals\<close>. An exception ends the loop with the store as it stands.
\<close>

function normals_loop ::
  "mv \<Rightarrow> bool \<Rightarrow> addr \<Rightarrow> addr \<Rightarrow> addr \<Rightarrow> addr \<Rightarrow> nat \<Rightarrow> nat \<Rightarrow> store \<Rightarrow> error \<times> store + store" where
  "normals_loop M strip verts inds skip normals i skipInd s =
     (if int i < int (length (nums s inds)) - 2 then
        let inc = (if strip then 1 else 3) in
        if elem (nums s skip) (int skipInd) = Some (int i)
        then normals_loop M strip verts inds skip normals (i + inc) (skipInd + 1) s
        else
          let j = nums s inds ! i; k = nums s inds ! (i + 1); l = nums s inds ! (i + 2) in
          if j = k \<or> k = l \<or> l = j
          then normals_loop M strip verts inds skip normals (i + inc) skipInd s
          else
            (case add_face M strip (vecs s verts) i j k l (vecs s normals) of
               Inl e \<Rightarrow> Inl (e, s)
             | Inr ns \<Rightarrow>
                 normals_loop M strip verts inds skip normals (i + inc) skipInd
                   (set_vecs normals ns s))
      else Inr s)"
  by pat_completeness auto
termination
  by (relation "measure (\<lambda>(M, strip, verts, inds, skip, normals, i, skipInd, s).
        length (nums s inds) - i)")
     (auto simp add: nums_def set_vecs_def)

declare normals_loop.simps [simp del]

text \<open>
  \<open>calc_normals\<close> up to the end of the accumulation loop. The optional argument \<open>strip\<close>
  is \<open>None\<close> when it is neither \<open>true\<close> nor \<open>false\<close>, and \<open>skip\<close> is \<open>None\<close> when it is
  \<open>undefined\<close>. \<open>new Array(verts.length)\<close> allocates the array of normals, \<open>skip.slice(0)\<close>
  (or \<open>[]\<close>) a new skip array, which is then sorted in place and extended by \<open>-1\<close>.
\<close>

definition accumulate_normals ::
  "mv \<Rightarrow> store \<Rightarrow> addr \<Rightarrow> addr \<Rightarrow> bool option \<Rightarrow> addr option \<Rightarrow> error \<times> store + addr \<times> store" where
  "accumulate_normals M s0 verts inds strip skip =
     (let strip = (case strip of Some b \<Rightarrow> b | None \<Rightarrow> True);
          (normals, s1) = alloc_vecs (replicate (length (vecs s0 verts)) []) s0;
          (skip, s2) = (case skip of None \<Rightarrow> alloc_nums [] s1
                                   | Some a \<Rightarrow> alloc_nums (nums s1 a) s1);
          s3 = set_nums skip (sort (nums s2 skip)) s2;
          s4 = set_nums skip (nums s3 skip @ [- 1]) s3;
          s5 = fold (\<lambda>i s. set_vecs normals ((vecs s normals)[i := mv_vec4 M [0, 0, 0, 0]]) s)
                 [0..<length (vecs s4 verts)] s4
      in case normals_loop M strip verts inds skip normals 0 0 s5 of
           Inl e \<Rightarrow> Inl e
         | Inr s6 \<Rightarrow> Inr (normals, s6))"

text \<open>\<open>calc_normals\<close>: the accumulation, then the pass that normalizes every normal.\<close>

definition calc_normals ::
  "mv \<Rightarrow> store \<Rightarrow> addr \<Rightarrow> addr \<Rightarrow> bool option \<Rightarrow> addr option \<Rightarrow> error \<times> store + addr \<times> store" where
  "calc_normals M s0 verts inds strip skip =
     (case accumulate_normals M s0 verts inds strip skip of
        Inl e \<Rightarrow> Inl e
      | Inr (normals, s6) \<Rightarrow>
          Inr (normals,
               fold (\<lambda>i s. set_vecs normals
                              ((vecs s normals)[i := mv_normalize M (vecs s normals ! i)]) s)
                 [0..<length (vecs s6 verts)] s6))"

text \<open>What a caller observes of a call: the store it leaves, and the normals it returns.\<close>

definition store_of :: "error \<times> store + addr \<times> store \<Rightarrow> store" where
  "store_of r = (case r of Inl (e, s) \<Rightarrow> s | Inr (a, s) \<Rightarrow> s)"

definition normals_of :: "error \<times> store + addr \<times> store \<Rightarrow> error + vec list" where
  "normals_of r = (case r of Inl (e, s) \<Rightarrow> Inl e | Inr (a, s) \<Rightarrow> Inr (vecs s a))"

subsection \<open>The loop on values\<close>

text \<open>
  For the proofs, the accumulation loop as a function of the contents of the arrays: the
  same tests in the same order, with the normals passed along. \<open>acc_loop\<close> is shown below
  to compute what \<open>normals_loop\<close> writes to the store.
\<close>

function acc_loop ::
  "mv \<Rightarrow> bool \<Rightarrow> vec list \<Rightarrow> int list \<Rightarrow> int list \<Rightarrow> nat \<Rightarrow> nat \<Rightarrow> vec list
     \<Rightarrow> error \<times> vec list + vec list" where
  "acc_loop M strip verts inds skip i c normals =
     (if int i < int (length inds) - 2 then
        if elem skip (int c) = Some (int i)
        then acc_loop M strip verts inds skip (i + (if strip then 1 else 3)) (c + 1) normals
        else if inds ! i = inds ! (i + 1) \<or> inds ! (i + 1) = inds ! (i + 2)
                \<or> inds ! (i + 2) = inds ! i
          then acc_loop M strip verts inds skip (i + (if strip then 1 else 3)) c normals
          else
            (case add_face M strip verts i (inds ! i) (inds ! (i + 1)) (inds ! (i + 2)) normals of
               Inl e \<Rightarrow> Inl (e, normals)
             | Inr ns \<Rightarrow> acc_loop M strip verts inds skip (i + (if strip then 1 else 3)) c ns)
      else Inr normals)"
  by pat_completeness auto
termination
  by (relation "measure (\<lambda>(M, strip, verts, inds, skip, i, c, normals). length inds - i)") auto

declare acc_loop.simps [simp del]

text \<open>
  The positions of the triangles that contribute: those the loop reaches without skipping
  them, by the skip cursor or as degenerate.
\<close>

function contributing :: "bool \<Rightarrow> int list \<Rightarrow> int list \<Rightarrow> nat \<Rightarrow> nat \<Rightarrow> nat list" where
  "contributing strip inds skip i c =
     (if int i < int (length inds) - 2 then
        if elem skip (int c) = Some (int i)
        then contributing strip inds skip (i + (if strip then 1 else 3)) (c + 1)
        else if inds ! i = inds ! (i + 1) \<or> inds ! (i + 1) = inds ! (i + 2)
                \<or> inds ! (i + 2) = inds ! i
          then contributing strip inds skip (i + (if strip then 1 else 3)) c
          else i # contributing strip inds skip (i + (if strip then 1 else 3)) c
      else [])"
  by pat_completeness auto
termination
  by (relation "measure (\<lambda>(strip, inds, skip, i, c). length inds - i)") auto

declare contributing.simps [simp del]

text \<open>The triangle at position \<open>p\<close> of \<open>inds\<close> has the vertex \<open>v\<close> as a corner.\<close>

definition touches :: "int list \<Rightarrow> nat \<Rightarrow> nat \<Rightarrow> bool" where
  "touches inds p v = (inds ! p = int v \<or> inds ! (p + 1) = int v \<or> inds ! (p + 2) = int v)"

text \<open>
  The face normal of the triangle at position \<open>p\<close> whose three vertices exist, and the sum
  that a vertex \<open>v\<close> is to receive from the triangles at the positions \<open>ps\<close>: the face
  normals of those that have \<open>v\<close> as a corner, added one after the other to \<open>vec4(0, 0, 0,
  0)\<close>.
\<close>

definition triangle_normal :: "mv \<Rightarrow> bool \<Rightarrow> vec list \<Rightarrow> int list \<Rightarrow> nat \<Rightarrow> vec" where
  "triangle_normal M strip verts inds p =
     (case face_norm M strip verts p (inds ! p) (inds ! (p + 1)) (inds ! (p + 2)) of
        Inl e \<Rightarrow> [] | Inr f \<Rightarrow> f)"

definition vertex_sum :: "mv \<Rightarrow> bool \<Rightarrow> vec list \<Rightarrow> int list \<Rightarrow> nat list \<Rightarrow> nat \<Rightarrow> vec" where
  "vertex_sum M strip verts inds ps v =
     foldl (mv_add M) (mv_vec4 M [0, 0, 0, 0])
       (map (triangle_normal M strip verts inds) (filter (\<lambda>p. touches inds p v) ps))"

text \<open>
  The topology flag and the skip list as the loop uses them, and the store with the two
  arrays that a call allocates.
\<close>

definition strip_default :: "bool option \<Rightarrow> bool" where
  "strip_default strip = (case strip of Some b \<Rightarrow> b | None \<Rightarrow> True)"

definition sorted_skip :: "store \<Rightarrow> addr option \<Rightarrow> int list" where
  "sorted_skip s skip = sort (case skip of None \<Rightarrow> [] | Some a \<Rightarrow> nums s a) @ [- 1]"

definition with_arrays :: "store \<Rightarrow> vec list \<Rightarrow> int list \<Rightarrow> store" where
  "with_arrays s ns sk = s\<lparr>vec_arrays := vec_arrays s @ [ns], num_arrays := num_arrays s @ [sk]\<rparr>"

text \<open>
  A store for the examples: the corners of the unit square, index sequences over them
  and skip lists.
\<close>

definition quad_store :: store where
  "quad_store =
     \<lparr>num_arrays = [[0, 1, 2, 3], [0], [3], [0, 1, 2, 1, 2, 3], [1, 3], [0, 1, 2],
                     [0, 1, 2, 0, 2, 1], [5, 3], [0, 0, 1]],
      vec_arrays = [[[0, 0, 0], [1, 0, 0], [0, 1, 0], [1, 1, 0]]]\<rparr>"

section \<open>OBJ loader: parsing and the vertex indexer\<close>

text \<open>
  \<open>load_obj\<close> reads the lines that \<open>_read_lines\<close> returns: \<open>None\<close> for a blank line or a
  comment, otherwise the tokens of the line. The coordinates of \<open>v\<close>, \<open>vn\<close> and \<open>vt\<close> lines
  are numbers of a type \<open>'n\<close> that the model leaves open; the conversion of a token to a
  number (the unary \<open>+\<close>) and the \<open>toString\<close> of a vector are parameters \<open>to_num\<close> and
  \<open>vec_str\<close>. Face indices are integers.
\<close>

subsection \<open>Tokens of a face\<close>

definition is_digit :: "char \<Rightarrow> bool" where
  "is_digit c = (c \<in> set ''0123456789'')"

text \<open>The regular expression \<open>/^-?\d+$/\<close>.\<close>

definition is_digits :: "string \<Rightarrow> bool" where
  "is_digits s = (s \<noteq> [] \<and> list_all is_digit s)"

definition signed_int :: "string \<Rightarrow> bool" where
  "signed_int s = (case s of [] \<Rightarrow> False
                   | c # r \<Rightarrow> if c = CHR ''-'' then is_digits r else is_digits s)"

text \<open>\<open>s.split(sep)\<close> for a separator of one character.\<close>

fun split_on :: "char \<Rightarrow> string \<Rightarrow> string list" where
  "split_on sep [] = [[]]"
| "split_on sep (c # cs) =
     (if c = sep then [] # split_on sep cs
      else (case split_on sep cs of [] \<Rightarrow> [[c]] | p # ps \<Rightarrow> (c # p) # ps))"

text \<open>
  The four face types \<open>v\<close>, \<open>v/t\<close>, \<open>v//n\<close> and \<open>v/t/n\<close>: \<open>types[t].test(s)\<close>. A string matches
  \<open>/^-?\d+\/-?\d+$/\<close> exactly when it splits at \<open>/\<close> into two signed integers, and likewise
  for the other types.
\<close>

definition type_test :: "nat \<Rightarrow> string \<Rightarrow> bool" where
  "type_test t s =
     (if t = 0 then signed_int s
      else if t = 1 then
        (case split_on CHR ''/'' s of [x, y] \<Rightarrow> signed_int x \<and> signed_int y | _ \<Rightarrow> False)
      else if t = 2 then
        (case split_on CHR ''/'' s of [x, e, y] \<Rightarrow> signed_int x \<and> e = [] \<and> signed_int y
         | _ \<Rightarrow> False)
      else if t = 3 then
        (case split_on CHR ''/'' s of [x, y, z] \<Rightarrow> signed_int x \<and> signed_int y \<and> signed_int z
         | _ \<Rightarrow> False)
      else False)"

text \<open>\<open>for (t = 0; t < types.length && !types[t].test(args[0]); t++);\<close>\<close>

definition face_type :: "string \<Rightarrow> nat" where
  "face_type s =
     (if type_test 0 s then 0 else if type_test 1 s then 1 else if type_test 2 s then 2
      else if type_test 3 s then 3 else 4)"

text \<open>The number that \<open>s * 1\<close> yields for a string of digits with an optional sign.\<close>

definition digits_value :: "string \<Rightarrow> nat" where
  "digits_value s = foldl (\<lambda>a c. 10 * a + (of_char c - 48)) 0 s"

definition to_int :: "string \<Rightarrow> int" where
  "to_int s = (case s of [] \<Rightarrow> 0
               | c # r \<Rightarrow> if c = CHR ''-'' then - int (digits_value r) else int (digits_value s))"

text \<open>
  \<open>if (x < 0) { x += len; } else { x -= 1; }\<close>: a negative index counts back from the
  current end of its list, any other index is 1-based.
\<close>

definition resolve :: "int \<Rightarrow> nat \<Rightarrow> int" where
  "resolve x len = (if x < 0 then x + int len else x - 1)"

subsection \<open>The state of the loader\<close>

text \<open>
  The variables of \<open>obj_loader\<close>. The output arrays \<open>verts\<close>, \<open>texCoords\<close>, \<open>normals\<close> and
  \<open>inds\<close> and the index \<open>map\<close> carry the prefix \<open>out_\<close> here. An entry \<open>None\<close> of
  \<open>out_texCoords\<close> or \<open>out_normals\<close> is \<open>null\<close>. \<open>requests\<close> lists the material libraries
  for which \<open>load_mtl\<close> has been called. The bookkeeping of objects and parts (\<open>objs\<close>,
  \<open>cur_mtl\<close>) is read by \<open>finish_materials\<close> only and is left out.
\<close>

record 'n obj_state =
  vs :: "'n list list"
  vns :: "'n list list"
  vts :: "'n list list"
  out_verts :: "'n list list"
  out_normals :: "'n list option list"
  out_texCoords :: "'n list option list"
  missingNormal :: bool
  hasTexCoord :: bool
  out_inds :: "nat list"
  out_map :: "string \<rightharpoonup> nat"
  mtls :: "string list"
  requests :: "string list"

definition init_state :: "'n obj_state" where
  "init_state = \<lparr>vs = [], vns = [], vts = [], out_verts = [], out_normals = [],
                  out_texCoords = [], missingNormal = False, hasTexCoord = False,
                  out_inds = [], out_map = Map.empty, mtls = [], requests = []\<rparr>"

text \<open>
  The key of \<open>get_idx(v, t, n)\<close>. \<open>load_obj\<close> passes \<open>null\<close> or a vector for \<open>t\<close> and for \<open>n\<close>,
  never \<open>undefined\<close>, so that the test \<open>typeof t === "undefined"\<close> in the third part of the
  key is false.
\<close>

definition idx_key :: "('n list \<Rightarrow> string) \<Rightarrow> 'n list \<Rightarrow> 'n list option \<Rightarrow> 'n list option \<Rightarrow> string" where
  "idx_key vec_str v t n =
     vec_str v @ '';'' @ (case t of None \<Rightarrow> '''' | Some t \<Rightarrow> vec_str t)
       @ '';'' @ (case n of None \<Rightarrow> '''' | Some n \<Rightarrow> vec_str n)"

definition get_idx ::
  "('n list \<Rightarrow> string) \<Rightarrow> 'n list \<Rightarrow> 'n list option \<Rightarrow> 'n list option \<Rightarrow> 'n obj_state
     \<Rightarrow> nat \<times> 'n obj_state" where
  "get_idx vec_str v t n st =
     (let s = idx_key vec_str v t n;
          st1 = (if out_map st s = None
                 then st\<lparr>out_map := (out_map st)(s \<mapsto> length (out_verts st)),
                         out_verts := out_verts st @ [v],
                         out_texCoords := out_texCoords st @ [t],
                         out_normals := out_normals st @ [n]\<rparr>
                 else st)
      in (the (out_map st1 s), st1))"

subsection \<open>Faces\<close>

text \<open>
  The corners of a face \<open>f a b c\<close>: the type of the three tokens, the conversion of the
  indices and the check for a valid face. The result is \<open>None\<close> when the face is dropped
  with a warning, otherwise the 0-based positions in \<open>vs\<close>, \<open>vts\<close> and \<open>vns\<close> of the three
  corners, where a texture coordinate or a normal that the face type lacks is \<open>None\<close>.
\<close>

definition face_corners ::
  "string list \<Rightarrow> 'n obj_state \<Rightarrow> (nat \<times> nat option \<times> nat option) list option" where
  "face_corners args st =
     (if length args < 3 then None
      else if length args > 3 then None
      else
        let t = face_type (args ! 0) in
        if t = 4 \<or> \<not> type_test t (args ! 1) \<or> \<not> type_test t (args ! 2) then None
        else
          let hasT = (t = 1 \<or> t = 3); hasN = (t = 2 \<or> t = 3);
              a = split_on CHR ''/'' (args ! 0);
              b = split_on CHR ''/'' (args ! 1);
              c = split_on CHR ''/'' (args ! 2);
              a0 = resolve (to_int (a ! 0)) (length (vs st));
              b0 = resolve (to_int (b ! 0)) (length (vs st));
              c0 = resolve (to_int (c ! 0)) (length (vs st));
              a1 = resolve (to_int (a ! 1)) (length (vts st));
              b1 = resolve (to_int (b ! 1)) (length (vts st));
              c1 = resolve (to_int (c ! 1)) (length (vts st));
              a2 = resolve (to_int (a ! 2)) (length (vns st));
              b2 = resolve (to_int (b ! 2)) (length (vns st));
              c2 = resolve (to_int (c ! 2)) (length (vns st))
          in
            if a0 < 0 \<or> a0 \<ge> int (length (vs st)) \<or> b0 < 0 \<or> b0 \<ge> int (length (vs st))
               \<or> c0 < 0 \<or> c0 \<ge> int (length (vs st))
               \<or> hasT \<and> (a1 < 0 \<or> a1 \<ge> int (length (vts st)) \<or> b1 < 0
                          \<or> b1 \<ge> int (length (vts st)) \<or> c1 < 0 \<or> c1 \<ge> int (length (vts st)))
               \<or> hasN \<and> (a2 < 0 \<or> a2 \<ge> int (length (vns st)) \<or> b2 < 0
                          \<or> b2 \<ge> int (length (vns st)) \<or> c2 < 0 \<or> c2 \<ge> int (length (vns st)))
            then None
            else Some [(nat a0, if hasT then Some (nat a1) else None,
                                if hasN then Some (nat a2) else None),
                       (nat b0, if hasT then Some (nat b1) else None,
                                if hasN then Some (nat b2) else None),
                       (nat c0, if hasT then Some (nat c1) else None,
                                if hasN then Some (nat c2) else None)])"

text \<open>One corner is added: its vertex, texture coordinate and normal go to \<open>get_idx\<close>.\<close>

definition add_corner ::
  "('n list \<Rightarrow> string) \<Rightarrow> nat \<times> nat option \<times> nat option \<Rightarrow> 'n obj_state \<Rightarrow> nat \<times> 'n obj_state" where
  "add_corner vec_str corner st =
     (case corner of (p, t, n) \<Rightarrow>
        get_idx vec_str (vs st ! p) (map_option (\<lambda>i. vts st ! i) t)
          (map_option (\<lambda>i. vns st ! i) n) st)"

text \<open>
  The line \<open>f a b c\<close>: a valid face records whether it has texture coordinates and
  normals (a corner has them exactly when the face type has them) and pushes the three
  indices of its corners.
\<close>

definition face :: "('n list \<Rightarrow> string) \<Rightarrow> string list \<Rightarrow> 'n obj_state \<Rightarrow> 'n obj_state" where
  "face vec_str args st =
     (case face_corners args st of
        None \<Rightarrow> st
      | Some corners \<Rightarrow>
          let hasT = (fst (snd (corners ! 0)) \<noteq> None);
              hasN = (snd (snd (corners ! 0)) \<noteq> None);
              st0 = st\<lparr>hasTexCoord := (if hasT then True else hasTexCoord st),
                       missingNormal := (if hasN then missingNormal st else True)\<rparr>;
              (ia, st1) = add_corner vec_str (corners ! 0) st0;
              (ib, st2) = add_corner vec_str (corners ! 1) st1;
              (ic, st3) = add_corner vec_str (corners ! 2) st2
          in st3\<lparr>out_inds := out_inds st3 @ [ia, ib, ic]\<rparr>)"

subsection \<open>Lines\<close>

text \<open>
  Modelled from the spec: the constructors \<open>vec3\<close> and \<open>vec2\<close> of MV.js construct a 3 or 2
  element vector of their arguments.
\<close>

definition vec3 :: "'n \<Rightarrow> 'n \<Rightarrow> 'n \<Rightarrow> 'n list" where
  "vec3 x y z = [x, y, z]"

definition vec2 :: "'n \<Rightarrow> 'n \<Rightarrow> 'n list" where
  "vec2 x y = [x, y]"

text \<open>
  \<open>mtllib filename filename ...\<close>: a library that is not yet in \<open>mtls\<close> is requested by
  \<open>load_mtl\<close>; every name is pushed onto \<open>mtls\<close>.
\<close>

definition mtllib_arg :: "string \<Rightarrow> 'n obj_state \<Rightarrow> 'n obj_state" where
  "mtllib_arg mtl st =
     (let st1 = (if mtl \<notin> set (mtls st) then st\<lparr>requests := requests st @ [mtl]\<rparr> else st)
      in st1\<lparr>mtls := mtls st1 @ [mtl]\<rparr>)"

definition mtllib :: "string list \<Rightarrow> 'n obj_state \<Rightarrow> 'n obj_state" where
  "mtllib args st = fold mtllib_arg args st"

text \<open>
  One line of the file. The lines \<open>usemtl\<close> and \<open>o\<close> change the objects and parts only;
  a warning changes nothing.
\<close>

definition obj_line ::
  "(string \<Rightarrow> 'n) \<Rightarrow> ('n list \<Rightarrow> string) \<Rightarrow> string list option \<Rightarrow> 'n obj_state \<Rightarrow> 'n obj_state" where
  "obj_line to_num vec_str line st =
     (case line of
        None \<Rightarrow> st
      | Some [] \<Rightarrow> st
      | Some (cmd # args) \<Rightarrow>
          if cmd = ''mtllib'' then mtllib args st
          else if cmd = ''usemtl'' then st
          else if cmd = ''o'' then st
          else if cmd = ''v'' then
            (if length args < 3 \<or> length args > 4 then st
             else st\<lparr>vs := vs st @ [vec3 (to_num (args ! 0)) (to_num (args ! 1))
                                          (to_num (args ! 2))]\<rparr>)
          else if cmd = ''vn'' then
            (if length args \<noteq> 3 then st
             else st\<lparr>vns := vns st @ [vec3 (to_num (args ! 0)) (to_num (args ! 1))
                                            (to_num (args ! 2))]\<rparr>)
          else if cmd = ''vt'' then
            (if length args < 2 \<or> length args > 3 then st
             else st\<lparr>vts := vts st @ [vec2 (to_num (args ! 0)) (to_num (args ! 1))]\<rparr>)
          else if cmd = ''f'' then face vec_str args st
          else st)"

text \<open>The loop over the lines of the file, from the state \<open>st\<close>.\<close>

definition obj_lines ::
  "(string \<Rightarrow> 'n) \<Rightarrow> ('n list \<Rightarrow> string) \<Rightarrow> string list option list \<Rightarrow> 'n obj_state
     \<Rightarrow> 'n obj_state" where
  "obj_lines to_num vec_str lines st = fold (obj_line to_num vec_str) lines st"

text \<open>
  The index maps of a state agree with its output arrays: the three arrays are equally
  long, and a key that the map sends to \<open>i\<close> is the key of the \<open>i\<close>-th entries.
\<close>

definition aligned :: "('n list \<Rightarrow> string) \<Rightarrow> 'n obj_state \<Rightarrow> bool" where
  "aligned vec_str st =
     (length (out_texCoords st) = length (out_verts st)
      \<and> length (out_normals st) = length (out_verts st)
      \<and> (\<forall>k i. out_map st k = Some i \<longrightarrow>
             i < length (out_verts st)
             \<and> idx_key vec_str (out_verts st ! i) (out_texCoords st ! i) (out_normals st ! i) = k))"

text \<open>
  The decimal notation of an integer, for the tokens of a face and for the examples:
  numbers written as integers (\<open>to_int\<close> for the unary \<open>+\<close>) and a \<open>toString\<close> that joins
  the components with commas.
\<close>

fun show_nat :: "nat \<Rightarrow> string" where
  "show_nat n = (if n < 10 then [''0123456789'' ! n]
                 else show_nat (n div 10) @ [''0123456789'' ! (n mod 10)])"

declare show_nat.simps [simp del]

definition show_int :: "int \<Rightarrow> string" where
  "show_int x = (if x < 0 then CHR ''-'' # show_nat (nat (- x)) else show_nat (nat x))"

fun join_commas :: "string list \<Rightarrow> string" where
  "join_commas [] = []"
| "join_commas [x] = x"
| "join_commas (x # y # ys) = x @ '','' @ join_commas (y # ys)"

definition int_vec_str :: "int list \<Rightarrow> string" where
  "int_vec_str v = join_commas (map show_int v)"

definition three_verts :: "string list option list" where
  "three_verts = [Some [''v'', ''0'', ''0'', ''0''], Some [''v'', ''1'', ''0'', ''0''],
                  Some [''v'', ''0'', ''1'', ''0'']]"

definition four_verts :: "string list option list" where
  "four_verts = three_verts @ [Some [''v'', ''0'', ''0'', ''0'']]"


subsection \<open>Faces written with negative and with positive indices\<close>

text \<open>
  The token of a corner with the indices \<open>v\<close>, \<open>t\<close> and \<open>n\<close> in one of the four face types
  \<open>v\<close>, \<open>v/t\<close>, \<open>v//n\<close> and \<open>v/t/n\<close>: the type has a texture index when \<open>hasT\<close> and a normal
  index when \<open>hasN\<close>.
\<close>

definition corner_token :: "bool \<Rightarrow> bool \<Rightarrow> int \<Rightarrow> int \<Rightarrow> int \<Rightarrow> string" where
  "corner_token hasT hasN v t n =
     show_int v @ (if hasT then ''/'' @ show_int t else if hasN then ''/'' else [])
       @ (if hasN then ''/'' @ show_int n else [])"

text \<open>
  A corner that counts back from the ends of the lists: the vertex \<open>kv\<close> places before the
  end of \<open>vs\<close>, the texture coordinate \<open>kt\<close> places before the end of \<open>vts\<close> and the normal
  \<open>kn\<close> places before the end of \<open>vns\<close>. Each of the three entries is written either with
  the negative index \<open>-k\<close> or with its 1-based index \<open>len - k + 1\<close>, as a flag says; the
  corner denotes the 0-based positions \<open>len - k\<close>. The counts are in range when the entries
  exist.
\<close>

definition written :: "bool \<Rightarrow> nat \<Rightarrow> nat \<Rightarrow> int" where
  "written negative len k = (if negative then - int k else int len - int k + 1)"

definition written_token ::
  "bool \<Rightarrow> bool \<Rightarrow> 'n obj_state \<Rightarrow> (bool \<times> bool \<times> bool) \<times> (nat \<times> nat \<times> nat) \<Rightarrow> string" where
  "written_token hasT hasN st w =
     (case w of ((gv, gt, gn), (kv, kt, kn)) \<Rightarrow>
        corner_token hasT hasN (written gv (length (vs st)) kv)
          (written gt (length (vts st)) kt) (written gn (length (vns st)) kn))"

definition back_corner ::
  "bool \<Rightarrow> bool \<Rightarrow> 'n obj_state \<Rightarrow> nat \<times> nat \<times> nat \<Rightarrow> nat \<times> nat option \<times> nat option" where
  "back_corner hasT hasN st k =
     (case k of (kv, kt, kn) \<Rightarrow>
        (length (vs st) - kv,
         if hasT then Some (length (vts st) - kt) else None,
         if hasN then Some (length (vns st) - kn) else None))"

definition back_ok :: "bool \<Rightarrow> bool \<Rightarrow> 'n obj_state \<Rightarrow> nat \<times> nat \<times> nat \<Rightarrow> bool" where
  "back_ok hasT hasN st k =
     (case k of (kv, kt, kn) \<Rightarrow>
        1 \<le> kv \<and> kv \<le> length (vs st)
        \<and> (hasT \<longrightarrow> 1 \<le> kt \<and> kt \<le> length (vts st))
        \<and> (hasN \<longrightarrow> 1 \<le> kn \<and> kn \<le> length (vns st)))"

text \<open>For the examples: a file with twelve vertices, two texture coordinates and a normal.\<close>

definition twelve_verts :: "string list option list" where
  "twelve_verts =
     replicate 11 (Some [''v'', ''0'', ''0'', ''0'']) @ [Some [''v'', ''5'', ''6'', ''7''],
       Some [''vt'', ''0'', ''0''], Some [''vt'', ''1'', ''0''],
       Some [''vn'', ''0'', ''0'', ''1'']]"

section \<open>Material libraries and the completion of the load\<close>

text \<open>
  \<open>load_mtl\<close> reads the lines of a material library. Of the loop over the lines the model
  keeps what decides the completion: whether a material is current (\<open>cur_mtl\<close> is not
  \<open>null\<close>) and how many texture images have been created (\<open>needed_txts\<close>).
\<close>

definition is_map_cmd :: "string \<Rightarrow> bool" where
  "is_map_cmd cmd = (cmd \<in> set [''map_Ka'', ''map_Kd'', ''map_Ks'', ''map_Ns'', ''map_d'',
                                  ''disp'', ''decal'', ''bump'', ''map_bump'', ''refl''])"

definition mtl_line :: "string list option \<Rightarrow> bool \<times> nat \<Rightarrow> bool \<times> nat" where
  "mtl_line line acc =
     (case line of
        None \<Rightarrow> acc
      | Some [] \<Rightarrow> acc
      | Some (cmd # args) \<Rightarrow>
          if cmd = ''newmtl'' then (if length args \<noteq> 1 then acc else (True, snd acc))
          else if \<not> fst acc then acc
          else if is_map_cmd cmd then (fst acc, snd acc + 1)
          else acc)"

definition mtl_needed :: "string list option list \<Rightarrow> nat" where
  "mtl_needed lines = snd (fold mtl_line lines (False, 0))"

text \<open>
  One call of \<open>load_mtl\<close>: the file requested, whether the request has been answered (by
  its \<open>load\<close> or by its \<open>error\<close> event), the two counters of the call and, for every image
  created, whether its \<open>load\<close> or \<open>error\<close> event has fired.
\<close>

record mtl_load =
  url :: string
  answered :: bool
  needed_txts :: nat
  loaded_txts :: nat
  images :: "bool list"

definition new_load :: "string \<Rightarrow> mtl_load" where
  "new_load name = \<lparr>url = name, answered = False, needed_txts = 0, loaded_txts = 0, images = []\<rparr>"

text \<open>
  The state of \<open>load_obj\<close> once the file has been parsed: the variables of the parse, the
  counter \<open>loaded_mtls\<close>, the calls of \<open>load_mtl\<close>, and the number of calls of
  \<open>finish_materials\<close> so far. \<open>ondone\<close> is called by \<open>finish_materials\<close> only, as its last
  statement. The assignments \<open>mtls[mtl_name] = ...\<close> set a property of the array named by
  the file; file names are taken not to be array indices or \<open>length\<close>, so that the
  elements and the length of \<open>mtls\<close> stay as the parse left them.
\<close>

record 'n loader =
  parsed :: "'n obj_state"
  loaded_mtls :: nat
  loads :: "mtl_load list"
  finish_calls :: nat

text \<open>
  \<open>obj_loader\<close>: the loop over the lines, then
  \<open>if (mtls.length === 0) { finish_materials(); }\<close>.
\<close>

definition obj_loader ::
  "(string \<Rightarrow> 'n) \<Rightarrow> ('n list \<Rightarrow> string) \<Rightarrow> string list option list \<Rightarrow> 'n loader" where
  "obj_loader to_num vec_str lines =
     (let st = obj_lines to_num vec_str lines init_state
      in \<lparr>parsed = st, loaded_mtls = 0, loads = map new_load (requests st),
          finish_calls = (if length (mtls st) = 0 then 1 else 0)\<rparr>)"

text \<open>
  \<open>mtl_loaded\<close> and \<open>mtl_error\<close>:
  \<open>if (++loaded_mtls === mtls.length) { finish_materials(); }\<close>.
\<close>

definition mtl_done :: "'n loader \<Rightarrow> 'n loader" where
  "mtl_done s =
     (let s1 = s\<lparr>loaded_mtls := loaded_mtls s + 1\<rparr>
      in if loaded_mtls s1 = length (mtls (parsed s1))
         then s1\<lparr>finish_calls := finish_calls s1 + 1\<rparr> else s1)"

text \<open>
  The events that a browser delivers, one at a time: the answer to the request of the
  \<open>r\<close>-th call of \<open>load_mtl\<close> (the contents of the files decide whether it is \<open>load\<close> or
  \<open>error\<close>), and the \<open>load\<close> or \<open>error\<close> of the \<open>k\<close>-th image of that call. The files are a
  function from names to lines, \<open>None\<close> for a file that fails to load.
\<close>

datatype event = MtlDone nat | ImageLoad nat nat | ImageError nat nat

type_synonym files = "string \<Rightarrow> string list option list option"

text \<open>
  The listeners of an image: \<open>if (needed_txts === ++loaded_txts) { finish_textures(); }\<close>,
  where \<open>finish_textures\<close> calls \<open>mtl_loaded\<close>. An event that cannot occur (no such image,
  or its event has fired) has no successor state.
\<close>

definition image_done :: "nat \<Rightarrow> nat \<Rightarrow> 'n loader \<Rightarrow> 'n loader option" where
  "image_done r k s =
     (if r < length (loads s) \<and> k < length (images (loads s ! r)) \<and> \<not> images (loads s ! r) ! k
      then
        let l = loads s ! r;
            l1 = l\<lparr>loaded_txts := loaded_txts l + 1, images := (images l)[k := True]\<rparr>;
            s1 = s\<lparr>loads := (loads s)[r := l1]\<rparr>
        in Some (if needed_txts l1 = loaded_txts l1 then mtl_done s1 else s1)
      else None)"

text \<open>
  The answer to a request: on \<open>error\<close>, \<open>mtl_error\<close>; on \<open>load\<close>, \<open>mtl_loader\<close> creates the
  images of the file and calls \<open>finish_textures\<close> at once when there are none.
\<close>

definition mtl_answer :: "files \<Rightarrow> nat \<Rightarrow> 'n loader \<Rightarrow> 'n loader option" where
  "mtl_answer fs r s =
     (if r < length (loads s) \<and> \<not> answered (loads s ! r)
      then
        (case fs (url (loads s ! r)) of
           None \<Rightarrow>
             Some (mtl_done (s\<lparr>loads := (loads s)[r := (loads s ! r)\<lparr>answered := True\<rparr>]\<rparr>))
         | Some lines \<Rightarrow>
             let n = mtl_needed lines;
                 l = (loads s ! r)\<lparr>answered := True, needed_txts := n,
                                   images := replicate n False\<rparr>;
                 s1 = s\<lparr>loads := (loads s)[r := l]\<rparr>
             in Some (if n = 0 then mtl_done s1 else s1))
      else None)"

definition step :: "files \<Rightarrow> event \<Rightarrow> 'n loader \<Rightarrow> 'n loader option" where
  "step fs e s =
     (case e of
        MtlDone r \<Rightarrow> mtl_answer fs r s
      | ImageLoad r k \<Rightarrow> image_done r k s
      | ImageError r k \<Rightarrow> image_done r k s)"

fun run :: "files \<Rightarrow> event list \<Rightarrow> 'n loader \<Rightarrow> 'n loader option" where
  "run fs [] s = Some s"
| "run fs (e # es) s = (case step fs e s of None \<Rightarrow> None | Some s1 \<Rightarrow> run fs es s1)"

text \<open>
  A call of \<open>load_mtl\<close> is done when its request has been answered and every image it
  created has reported; the load is settled when every call is done.
\<close>

definition load_done :: "mtl_load \<Rightarrow> bool" where
  "load_done l = (answered l \<and> list_all (\<lambda>b. b) (images l))"

definition settled :: "'n loader \<Rightarrow> bool" where
  "settled s = list_all load_done (loads s)"

text \<open>
  The counters of a call agree with its images: \<open>needed_txts\<close> counts the images created
  and \<open>loaded_txts\<close> those that have reported; before the answer there are none.
\<close>

definition load_wf :: "mtl_load \<Rightarrow> bool" where
  "load_wf l = (needed_txts l = length (images l)
                \<and> loaded_txts l = length (filter (\<lambda>b. b) (images l))
                \<and> (answered l \<or> images l = []))"

text \<open>
  What every reachable state satisfies: the counters of every call agree with its images,
  \<open>loaded_mtls\<close> counts the calls that are done, there are at most as many calls as names
  in \<open>mtls\<close>, and \<open>finish_materials\<close> has been called once if \<open>loaded_mtls\<close> has reached
  \<open>mtls.length\<close> and not at all otherwise.
\<close>

definition counted :: "'n loader \<Rightarrow> bool" where
  "counted s = (list_all load_wf (loads s)
                \<and> loaded_mtls s = length (filter load_done (loads s))
                \<and> length (loads s) \<le> length (mtls (parsed s))
                \<and> finish_calls s = (if loaded_mtls s = length (mtls (parsed s)) then 1 else 0))"

text \<open>The names that the \<open>mtllib\<close> lines of a file give, in order.\<close>

definition mtllib_args :: "string list option \<Rightarrow> string list" where
  "mtllib_args line =
     (case line of
        None \<Rightarrow> []
      | Some [] \<Rightarrow> []
      | Some (cmd # args) \<Rightarrow> if cmd = ''mtllib'' then args else [])"

definition mtllib_names :: "string list option list \<Rightarrow> string list" where
  "mtllib_names lines = concat (map mtllib_args lines)"

text \<open>For the examples: a file that names the same library in two \<open>mtllib\<close> lines.\<close>

definition twice_mtllib :: "string list option list" where
  "twice_mtllib = [Some [''mtllib'', ''a.mtl''], Some [''v'', ''0'', ''0'', ''0''],
                   Some [''mtllib'', ''a.mtl'']]"

definition once_mtllib :: "string list option list" where
  "once_mtllib = [Some [''mtllib'', ''a.mtl''], Some [''v'', ''0'', ''0'', ''0'']]"

definition one_texture :: "string list option list" where
  "one_texture = [Some [''newmtl'', ''red''], Some [''Kd'', ''1'', ''0'', ''0''],
                  Some [''map_Kd'', ''red.png'']]"

section \<open>Properties of the mesh builder\<close>

lemma fold_push: "fold (\<lambda>i xs. xs @ f i) js acc = acc @ concat (map f js)"
  by (induction js arbitrary: acc) simp_all

lemma circle_append: "circle A c r n verts = verts @ map (circle_vert A c r n) [0..<n]"
proof -
  have "circle A c r n verts = verts @ concat (map (\<lambda>i. [circle_vert A c r n i]) [0..<n])"
    unfolding circle_def by (rule fold_push)
  also have "concat (map (\<lambda>i. [circle_vert A c r n i]) [0..<n]) =
      map (circle_vert A c r n) [0..<n]"
    by (induction n) simp_all
  finally show ?thesis .
qed


lemma vec4_four: "vec4 z [a, b, c, d] = [a, b, c, d]"
  by (simp add: vec4_def)

lemma vec4_three: "vec4 z [a, b, c] = [a, b, c, z]"
  by (simp add: vec4_def numeral_eq_Suc)

lemma circle_vert_eq:
  "circle_vert A c r n i =
     [fadd A (coord A c 0)
        (fmul A (fcos A (fmul A (fnum A i) (fdiv A (fmul A (fnum A 2) (fpi A)) (fnum A n)))) r),
      coord A c 2,
      fadd A (coord A c 1)
        (fmul A (fsin A (fmul A (fnum A i) (fdiv A (fmul A (fnum A 2) (fpi A)) (fnum A n)))) r),
      fnum A 1]"
  by (simp add: circle_vert_def vec4_four Let_def)

lemma cylinder_eq:
  "cylinder A c r n h verts inds =
     (verts @ map (circle_vert A (vec4 (fnum A 0) [coord A c 0, coord A c 1, h]) r n) [0..<n]
            @ map (circle_vert A (vec4 (fnum A 0) [coord A c 0, coord A c 1, fneg A h]) r n)
                [0..<n],
      inds @ concat (map (\<lambda>i. [int i + int (length verts), int i + int n + int (length verts)])
                       [0..<n])
           @ [int (length verts), int (length verts) + int n, int (length verts) + int n])"
  by (simp add: cylinder_def Let_def circle_append fold_push)

lemma add_truncated_cone_eq:
  "add_truncated_cone m1 m2 n offset inds =
     inds @ [int m1 * int n + int offset]
          @ concat (map (\<lambda>i. [int i + int m1 * int n + int offset,
                                int i + int m2 * int n + int offset]) [0..<n])
          @ [int m1 * int n + int offset, int m2 * int n + int offset,
             int m2 * int n + int offset]"
  by (simp add: add_truncated_cone_def Let_def fold_push)

lemma add_circle_fill_eq:
  "add_circle_fill n offset inds reverse =
     inds @ [int offset, int offset]
          @ concat (map (\<lambda>i. if reverse \<noteq> Some True
                               then [int i + 1 + int offset, int n - int i - 1 + int offset]
                               else [int n - int i - 1 + int offset, int i + 1 + int offset])
                      [0..<(n + 1) div 2])"
  by (simp add: add_circle_fill_def Let_def fold_push)

lemma length_concat_pairs: "length (concat (map (\<lambda>i. [f i, g i]) js)) = 2 * length js"
  by (induction js) simp_all

lemma nth_concat_pairs:
  "i < length js \<Longrightarrow>
     concat (map (\<lambda>i. [f i, g i]) js) ! (2 * i) = f (js ! i) \<and>
     concat (map (\<lambda>i. [f i, g i]) js) ! (2 * i + 1) = g (js ! i)"
proof (induction js arbitrary: i)
  case Nil
  then show ?case by simp
next
  case (Cons j js)
  show ?case
  proof (cases i)
    case 0
    then show ?thesis by simp
  next
    case (Suc k)
    with Cons.prems have "k < length js" by simp
    from Cons.IH [OF this] Suc show ?thesis by simp
  qed
qed

subsection \<open>Exact and rounded arithmetic\<close>























text \<open>
  Claim C5. For every centre \<open>c\<close>, radius \<open>r\<close>, count \<open>n \<ge> 3\<close> and half height \<open>h\<close>,
  \<open>cylinder\<close> appends two circles of \<open>n\<close> vertices each, the first in the plane of height
  \<open>+h\<close> and the second in the plane of height \<open>-h\<close>; it then appends the index pairs
  \<open>[top_i, bottom_i]\<close> for \<open>i\<close> in \<open>[0, n)\<close>, relative to the starting offset, then the first
  pair \<open>[top_0, bottom_0]\<close> again, then \<open>bottom_0\<close> once more: \<open>2n + 3\<close> indices in all.
  This holds in every arithmetic; \<open>-h\<close> is the result of its unary minus.
\<close>

theorem cylinder_layout:
  assumes "3 \<le> n" and "i < n"
      and "cylinder A c r n h verts inds = (verts', inds')"
  shows "verts' = verts @ map (circle_vert A (vec4 (fnum A 0) [coord A c 0, coord A c 1, h]) r n)
                            [0..<n]
                        @ map (circle_vert A (vec4 (fnum A 0) [coord A c 0, coord A c 1, fneg A h])
                                 r n) [0..<n]
       \<and> length verts' = length verts + 2 * n
       \<and> (verts' ! (length verts + i)) ! 1 = h
       \<and> (verts' ! (length verts + n + i)) ! 1 = fneg A h
       \<and> length inds' = length inds + (2 * n + 3)
       \<and> take (length inds) inds' = inds
       \<and> inds' ! (length inds + 2 * i) = int (length verts + i)
       \<and> inds' ! (length inds + 2 * i + 1) = int (length verts + n + i)
       \<and> drop (length inds + 2 * n) inds' =
           [int (length verts), int (length verts + n), int (length verts + n)]"
proof -
  let ?off = "length verts"
  let ?top = "map (circle_vert A (vec4 (fnum A 0) [coord A c 0, coord A c 1, h]) r n) [0..<n]"
  let ?bot = "map (circle_vert A (vec4 (fnum A 0) [coord A c 0, coord A c 1, fneg A h]) r n)
                [0..<n]"
  let ?pairs = "concat (map (\<lambda>i. [int i + int ?off, int i + int n + int ?off]) [0..<n])"
  let ?tail = "[int ?off, int ?off + int n, int ?off + int n]"
  from assms(3) have v: "verts' = verts @ ?top @ ?bot" and s: "inds' = inds @ ?pairs @ ?tail"
    by (simp_all add: cylinder_eq)
  have lp: "length ?pairs = 2 * n"
    by (simp add: length_concat_pairs)
  have np: "?pairs ! (2 * i) = int i + int ?off \<and> ?pairs ! (2 * i + 1) = int i + int n + int ?off"
    using nth_concat_pairs [of i "[0..<n]" "\<lambda>i. int i + int ?off" "\<lambda>i. int i + int n + int ?off"]
      assms(2) by simp
  have t: "(verts' ! (?off + i)) ! 1 = h"
    using assms(2) by (simp add: v nth_append circle_vert_eq vec4_three coord_def)
  have b: "(verts' ! (?off + n + i)) ! 1 = fneg A h"
    using assms(2) by (simp add: v nth_append circle_vert_eq vec4_three coord_def)
  have i1: "inds' ! (length inds + 2 * i) = int (?off + i)"
    using assms(2) np lp by (simp add: s nth_append)
  have "inds' ! (length inds + (2 * i + 1)) = int (?off + n + i)"
    using assms(2) np lp by (simp add: s nth_append del: One_nat_def)
  then have i2: "inds' ! (length inds + 2 * i + 1) = int (?off + n + i)"
    by (simp add: add.assoc)
  have d: "drop (length inds + 2 * n) inds' = [int ?off, int (?off + n), int (?off + n)]"
    using lp by (simp add: s)
  show ?thesis
    using t b i1 i2 d lp by (simp add: v s)
qed

theorem cylinder_layout_witness:
  "(3::nat) \<le> 3 \<and> (2::nat) < 3
   \<and> snd (cylinder exact [Some 0, Some 0] (Some 1) 3 (Some 5) [] []) =
       [0, 3, 1, 4, 2, 5, 0, 3, 3]
   \<and> length (fst (cylinder exact [Some 0, Some 0] (Some 1) 3 (Some 5) [] [])) = 6
   \<and> (fst (cylinder exact [Some 0, Some 0] (Some 1) 3 (Some 5) [] []) ! 2) ! 1 = Some 5
   \<and> (fst (cylinder exact [Some 0, Some 0] (Some 1) 3 (Some 5) [] []) ! 5) ! 1 = Some (- 5)"
  using cylinder_layout [of 3 2 exact "[Some 0, Some 0]" "Some 1" "Some 5" "[]" "[]"
      "fst (cylinder exact [Some 0, Some 0] (Some 1) 3 (Some 5) [] [])"
      "snd (cylinder exact [Some 0, Some 0] (Some 1) 3 (Some 5) [] [])"]
  by (simp add: cylinder_eq upt_rec exact_def arith_of_def)

lemma soda_can_length_verts: "length (fst (soda_can A c r1 r2 n h [] [])) = 4 * n"
  by (simp add: soda_can_def Let_def cylinder_eq circle_append)

lemma soda_can_inds:
  "snd (soda_can A c r1 r2 n h [] []) =
     concat (map (\<lambda>i. [int i + int n, int i + int n + int n]) [0..<n])
     @ [int n, int n + int n, int n + int n]
     @ [0] @ concat (map (\<lambda>i. [int i, int i + int n]) [0..<n]) @ [0, int n, int n]
     @ [2 * int n]
     @ concat (map (\<lambda>i. [int i + 2 * int n, int i + 3 * int n]) [0..<n])
     @ [2 * int n, 3 * int n, 3 * int n]
     @ [0, 0]
     @ concat (map (\<lambda>i. [int i + 1, int n - int i - 1]) [0..<(n + 1) div 2])
     @ [3 * int n, 3 * int n]
     @ concat (map (\<lambda>i. [int n - int i - 1 + int (3 * n), int i + 1 + int (3 * n)])
                 [0..<(n + 1) div 2])"
  by (simp add: soda_can_def Let_def cylinder_eq circle_append add_truncated_cone_eq
      add_circle_fill_eq) (simp add: algebra_simps)

text \<open>
  Claim C2. For every \<open>n \<ge> 3\<close> and radii with \<open>0 < r2 < r1\<close>, every entry of the index
  sequence that \<open>soda_can\<close> produces from empty \<open>verts\<close> and \<open>inds\<close> arrays is a valid
  vertex index: \<open>0 \<le> idx < verts.length\<close> for the vertex array produced. The indices do
  not depend on the coordinates: this holds in every arithmetic and for all radii, among
  them those with \<open>0 < r2 < r1\<close>.
\<close>

theorem soda_can_indices_valid:
  assumes "3 \<le> n"
      and "soda_can A c r1 r2 n h [] [] = (verts, inds)"
      and "idx \<in> set inds"
  shows "0 \<le> idx \<and> idx < int (length verts)"
proof -
  from assms(2) have len: "length verts = 4 * n"
    using soda_can_length_verts [of A c r1 r2 n h] by simp
  from assms(2) have inds: "inds = snd (soda_can A c r1 r2 n h [] [])"
    by simp
  from assms(3) have "0 \<le> idx \<and> idx < 4 * int n"
    unfolding inds soda_can_inds using assms(1) by auto
  with len show ?thesis by simp
qed

theorem soda_can_indices_valid_witness:
  "(3::nat) \<le> 3 \<and> (0::real) < 1 \<and> (1::real) < 2
   \<and> 11 \<in> set (snd (soda_can binary64 [Some 0, Some 0] (Some 2) (Some 1) 3 (Some 1) [] []))
   \<and> (0::int) \<le> 11
   \<and> 11 < int (length (fst (soda_can binary64 [Some 0, Some 0] (Some 2) (Some 1) 3 (Some 1)
                              [] [])))"
proof -
  obtain verts inds
    where sc: "soda_can binary64 [Some 0, Some 0] (Some 2) (Some 1) 3 (Some 1) [] [] = (verts, inds)"
    by (cases "soda_can binary64 [Some 0, Some 0] (Some 2) (Some 1) 3 (Some 1) [] []")
  then have "inds = snd (soda_can binary64 [Some 0, Some 0] (Some 2) (Some 1) 3 (Some 1) [] [])"
    by simp
  then have m: "11 \<in> set inds"
    unfolding soda_can_inds by (simp add: upt_rec)
  have "(3::nat) \<le> 3"
    by simp
  from soda_can_indices_valid [OF this sc m] m show ?thesis
    by (simp add: sc)
qed

section \<open>Properties of the normal calculator\<close>

lemma vecs_set_vecs_same: "a < length (vec_arrays s) \<Longrightarrow> vecs (set_vecs a xs s) a = xs"
  by (simp add: vecs_def set_vecs_def)

lemma vecs_set_vecs_other: "b \<noteq> a \<Longrightarrow> vecs (set_vecs a xs s) b = vecs s b"
  by (simp add: vecs_def set_vecs_def)

lemma nums_set_vecs: "nums (set_vecs a xs s) b = nums s b"
  by (simp add: nums_def set_vecs_def)

lemma set_vecs_twice: "set_vecs a ys (set_vecs a xs s) = set_vecs a ys s"
  by (simp add: set_vecs_def)

lemma set_vecs_id: "set_vecs a (vecs s a) s = s"
  by (simp add: set_vecs_def vecs_def)

lemma length_set_vecs: "length (vec_arrays (set_vecs a xs s)) = length (vec_arrays s)"
  by (simp add: set_vecs_def)

lemma normals_loop_pure:
  "na < length (vec_arrays s) \<Longrightarrow> va \<noteq> na \<Longrightarrow>
   normals_loop M strip va ia ska na i c s =
     (case acc_loop M strip (vecs s va) (nums s ia) (nums s ska) i c (vecs s na) of
        Inl (e, ns) \<Rightarrow> Inl (e, set_vecs na ns s)
      | Inr ns \<Rightarrow> Inr (set_vecs na ns s))"
proof (induction M strip va ia ska na i c s rule: normals_loop.induct)
  case (1 M strip va ia ska na i c s)
  show ?case
    apply (subst normals_loop.simps)
    apply (subst acc_loop.simps)
    using 1
    apply (auto simp add: Let_def set_vecs_id vecs_set_vecs_same vecs_set_vecs_other
        nums_set_vecs set_vecs_twice length_set_vecs split: sum.splits prod.splits)
    done
qed


lemma fold_set_vecs:
  "na < length (vec_arrays s) \<Longrightarrow> n \<le> length (vecs s na) \<Longrightarrow>
   fold (\<lambda>i s. set_vecs na ((vecs s na)[i := g i (vecs s na ! i)]) s) [0..<n] s =
     set_vecs na (map (\<lambda>i. g i (vecs s na ! i)) [0..<n] @ drop n (vecs s na)) s"
proof (induction n)
  case 0
  then show ?case by (simp add: set_vecs_id)
next
  case (Suc n)
  let ?xs = "vecs s na"
  let ?ys = "map (\<lambda>i. g i (?xs ! i)) [0..<n] @ drop n ?xs"
  from Suc.prems have n: "n < length ?xs" by simp
  have yn: "?ys ! n = ?xs ! n"
    using n by (simp add: nth_append)
  have "drop n ?xs = ?xs ! n # drop (Suc n) ?xs"
    using n by (simp add: Cons_nth_drop_Suc)
  then have upd: "?ys[n := v] = map (\<lambda>i. g i (?xs ! i)) [0..<n] @ v # drop (Suc n) ?xs" for v
    by (simp add: list_update_append)
  show ?case
    using Suc n by (simp add: vecs_set_vecs_same set_vecs_twice yn upd)
qed

lemma accumulate_normals_pure:
  assumes "va < length (vec_arrays s)" and "ia < length (num_arrays s)"
      and "case skip of None \<Rightarrow> True | Some a \<Rightarrow> a < length (num_arrays s)"
  shows "accumulate_normals M s va ia strip skip =
     (case acc_loop M (strip_default strip) (vecs s va) (nums s ia) (sorted_skip s skip) 0 0
             (replicate (length (vecs s va)) (mv_vec4 M [0, 0, 0, 0])) of
        Inl (e, ns) \<Rightarrow> Inl (e, with_arrays s ns (sorted_skip s skip))
      | Inr ns \<Rightarrow> Inr (length (vec_arrays s), with_arrays s ns (sorted_skip s skip)))"
proof -
  let ?na = "length (vec_arrays s)"
  let ?ska = "length (num_arrays s)"
  let ?n = "length (vecs s va)"
  let ?sk = "sorted_skip s skip"
  let ?s4 = "with_arrays s (replicate ?n []) ?sk"
  let ?s5 = "with_arrays s (replicate ?n (mv_vec4 M [0, 0, 0, 0])) ?sk"
  have init: "fold (\<lambda>i s. set_vecs ?na ((vecs s ?na)[i := mv_vec4 M [0, 0, 0, 0]]) s) [0..<?n] ?s4 = ?s5"
  proof -
    have "fold (\<lambda>i s. set_vecs ?na ((vecs s ?na)[i := (\<lambda>i v. mv_vec4 M [0, 0, 0, 0]) i (vecs s ?na ! i)]) s)
            [0..<?n] ?s4
          = set_vecs ?na (map (\<lambda>i. mv_vec4 M [0, 0, 0, 0]) [0..<?n] @ drop ?n (vecs ?s4 ?na)) ?s4"
      by (rule fold_set_vecs) (simp_all add: with_arrays_def vecs_def)
    then show ?thesis
      by (simp add: with_arrays_def vecs_def set_vecs_def map_replicate_const)
  qed
  have s5: "?na < length (vec_arrays ?s5)" "va \<noteq> ?na"
    using assms(1) by (simp_all add: with_arrays_def)
  have rd: "vecs ?s5 va = vecs s va" "nums ?s5 ia = nums s ia" "nums ?s5 ?ska = ?sk"
    "vecs ?s5 ?na = replicate ?n (mv_vec4 M [0, 0, 0, 0])"
    using assms(1,2) by (simp_all add: with_arrays_def vecs_def nums_def nth_append)
  have wr: "set_vecs ?na ns ?s5 = with_arrays s ns ?sk" for ns
    by (simp add: with_arrays_def set_vecs_def)
  have v4: "vecs ?s4 va = vecs s va"
    using assms(1) by (simp add: with_arrays_def vecs_def nth_append)
  have pre: "accumulate_normals M s va ia strip skip =
     (case normals_loop M (strip_default strip) va ia ?ska ?na 0 0 ?s5 of
        Inl e \<Rightarrow> Inl e | Inr s6 \<Rightarrow> Inr (?na, s6))"
  proof (cases skip)
    case None
    show ?thesis
      unfolding accumulate_normals_def
      using init v4 None
      by (simp add: alloc_vecs_def alloc_nums_def set_nums_def nums_def Let_def with_arrays_def
          sorted_skip_def strip_default_def)
  next
    case (Some a)
    with assms(3) have "a < length (num_arrays s)" by simp
    then show ?thesis
      unfolding accumulate_normals_def
      using init v4 Some
      by (simp add: alloc_vecs_def alloc_nums_def set_nums_def nums_def Let_def with_arrays_def
          sorted_skip_def strip_default_def nth_append)
  qed
  show ?thesis
    unfolding pre normals_loop_pure [OF s5] rd wr
    by (simp split: sum.splits prod.splits)
qed




lemma add_face_length: "add_face M strip verts i j k l ns = Inr ns' \<Longrightarrow> length ns' = length ns"
  by (auto simp add: add_face_def Let_def split: sum.splits)

lemma acc_loop_invariant:
  assumes "P ns"
      and "\<And>p ms ms'. p \<in> set (contributing strip inds skip i c) \<Longrightarrow> P ms \<Longrightarrow>
             add_face M strip verts p (inds ! p) (inds ! (p + 1)) (inds ! (p + 2)) ms = Inr ms'
             \<Longrightarrow> P ms'"
  shows "case acc_loop M strip verts inds skip i c ns of
           Inl (e, ns') \<Rightarrow> P ns' | Inr ns' \<Rightarrow> P ns'"
  using assms
proof (induction M strip verts inds skip i c ns rule: acc_loop.induct)
  case (1 M strip verts inds skip i c normals)
  let ?next = "i + (if strip then 1 else 3)"
  show ?case
  proof (cases "int i < int (length inds) - 2")
    case False
    then show ?thesis
      using "1.prems"(1) by (subst acc_loop.simps) simp
  next
    case in_range: True
    show ?thesis
    proof (cases "elem skip (int c) = Some (int i)")
      case True
      have c: "contributing strip inds skip i c = contributing strip inds skip ?next (c + 1)"
        using in_range True by (subst contributing.simps) simp
      have "case acc_loop M strip verts inds skip ?next (c + 1) normals of
              Inl (e, ns') \<Rightarrow> P ns' | Inr ns' \<Rightarrow> P ns'"
        using "1.prems" by (intro "1.IH"(1) [OF in_range True]) (simp_all add: c)
      then show ?thesis
        using in_range True by (subst acc_loop.simps) simp
    next
      case not_skipped: False
      show ?thesis
      proof (cases "inds ! i = inds ! (i + 1) \<or> inds ! (i + 1) = inds ! (i + 2)
                      \<or> inds ! (i + 2) = inds ! i")
        case True
        have c: "contributing strip inds skip i c = contributing strip inds skip ?next c"
          using in_range not_skipped True by (subst contributing.simps) simp
        have "case acc_loop M strip verts inds skip ?next c normals of
                Inl (e, ns') \<Rightarrow> P ns' | Inr ns' \<Rightarrow> P ns'"
          using "1.prems" by (intro "1.IH"(2) [OF in_range not_skipped True]) (simp_all add: c)
        then show ?thesis
          using in_range not_skipped True by (subst acc_loop.simps) simp
      next
        case proper: False
        have c: "contributing strip inds skip i c = i # contributing strip inds skip ?next c"
          using in_range not_skipped proper by (subst contributing.simps) simp
        show ?thesis
        proof (cases "add_face M strip verts i (inds ! i) (inds ! (i + 1)) (inds ! (i + 2)) normals")
          case (Inl e)
          then show ?thesis
            using in_range not_skipped proper "1.prems"(1) by (subst acc_loop.simps) simp
        next
          case (Inr ms)
          have ms: "P ms"
            using "1.prems"(2) [OF _ "1.prems"(1) Inr] by (simp add: c)
          have step: "P ms2'" if "p \<in> set (contributing strip inds skip ?next c)" and "P ms2"
            and "add_face M strip verts p (inds ! p) (inds ! (p + 1)) (inds ! (p + 2)) ms2 = Inr ms2'"
          for p ms2 ms2'
            using that(2,3) by (rule "1.prems"(2) [rotated]) (simp add: c that(1))
          have "case acc_loop M strip verts inds skip ?next c ms of
                  Inl (e, ns') \<Rightarrow> P ns' | Inr ns' \<Rightarrow> P ns'"
            by (rule "1.IH"(3) [OF in_range not_skipped proper Inr ms step])
          then show ?thesis
            using in_range not_skipped proper Inr by (subst acc_loop.simps) simp
        qed
      qed
    qed
  qed
qed

lemma acc_loop_length:
  assumes "acc_loop M strip verts inds skip i c ns = Inr ns'"
  shows "length ns' = length ns"
  using acc_loop_invariant [of "\<lambda>ms. length ms = length ns" ns strip inds skip i c M verts] assms
  by (simp add: add_face_length)

lemma acc_loop_length_err:
  assumes "acc_loop M strip verts inds skip i c ns = Inl (e, ns')"
  shows "length ns' = length ns"
  using acc_loop_invariant [of "\<lambda>ms. length ms = length ns" ns strip inds skip i c M verts] assms
  by (simp add: add_face_length)

lemma calc_normals_pure:
  assumes "va < length (vec_arrays s)" and "ia < length (num_arrays s)"
      and "case skip of None \<Rightarrow> True | Some a \<Rightarrow> a < length (num_arrays s)"
  shows "calc_normals M s va ia strip skip =
     (case acc_loop M (strip_default strip) (vecs s va) (nums s ia) (sorted_skip s skip) 0 0
             (replicate (length (vecs s va)) (mv_vec4 M [0, 0, 0, 0])) of
        Inl (e, ns) \<Rightarrow> Inl (e, with_arrays s ns (sorted_skip s skip))
      | Inr ns \<Rightarrow> Inr (length (vec_arrays s), with_arrays s (map (mv_normalize M) ns) (sorted_skip s skip)))"
proof (cases "acc_loop M (strip_default strip) (vecs s va) (nums s ia) (sorted_skip s skip) 0 0
             (replicate (length (vecs s va)) (mv_vec4 M [0, 0, 0, 0]))")
  case (Inl a)
  then show ?thesis
    by (simp add: calc_normals_def accumulate_normals_pure [OF assms] split: prod.splits)
next
  case (Inr ns)
  let ?na = "length (vec_arrays s)"
  let ?s6 = "with_arrays s ns (sorted_skip s skip)"
  from acc_loop_length [OF Inr] have len: "length ns = length (vecs s va)"
    by simp
  have rd: "vecs ?s6 va = vecs s va" "vecs ?s6 ?na = ns" "?na < length (vec_arrays ?s6)"
    using assms(1) by (simp_all add: with_arrays_def vecs_def nth_append)
  have "fold (\<lambda>i s. set_vecs ?na ((vecs s ?na)[i := (\<lambda>i v. mv_normalize M v) i (vecs s ?na ! i)]) s)
          [0..<length (vecs s va)] ?s6
        = set_vecs ?na (map (\<lambda>i. mv_normalize M (vecs ?s6 ?na ! i)) [0..<length (vecs s va)]
                        @ drop (length (vecs s va)) (vecs ?s6 ?na)) ?s6"
    by (rule fold_set_vecs) (simp_all add: rd len)
  also have "\<dots> = with_arrays s (map (mv_normalize M) ns) (sorted_skip s skip)"
  proof -
    have "map (\<lambda>i. mv_normalize M (ns ! i)) [0..<length ns] = map (mv_normalize M) ns"
      by (rule nth_equalityI) simp_all
    then show ?thesis
      using len by (simp add: rd) (simp add: with_arrays_def set_vecs_def)
  qed
  finally show ?thesis
    using Inr by (simp add: calc_normals_def accumulate_normals_pure [OF assms] rd)
qed



lemma normals_of_pure:
  assumes "va < length (vec_arrays s)" and "ia < length (num_arrays s)"
      and "case skip of None \<Rightarrow> True | Some a \<Rightarrow> a < length (num_arrays s)"
  shows "normals_of (calc_normals M s va ia strip skip) =
     (case acc_loop M (strip_default strip) (vecs s va) (nums s ia) (sorted_skip s skip) 0 0
             (replicate (length (vecs s va)) (mv_vec4 M [0, 0, 0, 0])) of
        Inl (e, ns) \<Rightarrow> Inl e
      | Inr ns \<Rightarrow> Inr (map (mv_normalize M) ns))"
proof -
  note eq = calc_normals_pure [OF assms(1,2,3), where strip = strip]
  show ?thesis
  proof (cases "acc_loop M (strip_default strip) (vecs s va) (nums s ia) (sorted_skip s skip) 0 0
             (replicate (length (vecs s va)) (mv_vec4 M [0, 0, 0, 0]))")
    case (Inl a)
    then show ?thesis
      by (cases a) (simp add: eq normals_of_def)
  next
    case (Inr ns)
    then show ?thesis
      by (simp add: eq normals_of_def with_arrays_def vecs_def)
  qed
qed

lemmas eval_simps = normals_of_pure nums_def vecs_def sorted_skip_def strip_default_def
  acc_loop.simps add_face_def face_norm_def ensure_vec4_def elem_def mv_spec_def vec4_def
  cross_def subtract_def add_def normalize_def vlength_def Let_def

text \<open>
  Claim C10. \<open>calc_normals\<close> does not mutate its arguments: after the call, whether it
  returns or throws, the caller's \<open>verts\<close>, \<open>inds\<close> and \<open>skip\<close> arrays hold what they held
  before, and so does every other array that existed. The skip list is copied before it
  is sorted and \<open>-1\<close> is appended: the sorted list with the sentinel is a new array of
  the store.
\<close>

theorem calc_normals_frame:
  assumes "verts < length (vec_arrays s)" and "inds < length (num_arrays s)"
      and "case skip of None \<Rightarrow> True | Some a \<Rightarrow> a < length (num_arrays s)"
      and "s' = store_of (calc_normals M s verts inds strip skip)"
  shows "vecs s' verts = vecs s verts \<and> nums s' inds = nums s inds
       \<and> (case skip of None \<Rightarrow> True | Some a \<Rightarrow> nums s' a = nums s a)
       \<and> take (length (vec_arrays s)) (vec_arrays s') = vec_arrays s
       \<and> take (length (num_arrays s)) (num_arrays s') = num_arrays s
       \<and> num_arrays s' =
           num_arrays s @ [sort (case skip of None \<Rightarrow> [] | Some a \<Rightarrow> nums s a) @ [- 1]]"
proof -
  note eq = calc_normals_pure [OF assms(1,2,3), where strip = strip]
  have "\<exists>ns. s' = with_arrays s ns (sorted_skip s skip)"
  proof (cases "acc_loop M (strip_default strip) (vecs s verts) (nums s inds) (sorted_skip s skip)
                  0 0 (replicate (length (vecs s verts)) (mv_vec4 M [0, 0, 0, 0]))")
    case (Inl a)
    then show ?thesis
      by (cases a) (auto simp add: assms(4) eq store_of_def)
  next
    case (Inr ns)
    then show ?thesis
      by (auto simp add: assms(4) eq store_of_def)
  qed
  then obtain ns where s': "s' = with_arrays s ns (sorted_skip s skip)" ..
  show ?thesis
    using assms(1,2,3)
    by (auto simp add: s' with_arrays_def vecs_def nums_def nth_append sorted_skip_def
        split: option.splits)
qed

theorem calc_normals_frame_witness:
  "0 < length (vec_arrays quad_store) \<and> 0 < length (num_arrays quad_store)
   \<and> 7 < length (num_arrays quad_store)
   \<and> nums (store_of (calc_normals mv_spec quad_store 0 0 None (Some 7))) 7 = [5, 3]
   \<and> num_arrays (store_of (calc_normals mv_spec quad_store 0 0 None (Some 7))) =
       num_arrays quad_store @ [[3, 5, - 1]]"
  using calc_normals_frame [of 0 quad_store 0 "Some 7"
      "store_of (calc_normals mv_spec quad_store 0 0 None (Some 7))" mv_spec None]
  by (simp add: quad_store_def nums_def)

subsection \<open>The normals as sums of face normals\<close>

lemma sum_squares_zero:
  "sum_list (map (\<lambda>x. x * x) (u :: real list)) = 0 \<longleftrightarrow> (\<forall>x \<in> set u. x = 0)"
proof (induction u)
  case Nil
  then show ?case by simp
next
  case (Cons a u)
  have "0 \<le> sum_list (map (\<lambda>x. x * x) u)"
    by (rule sum_list_nonneg) auto
  then have "a * a + sum_list (map (\<lambda>x. x * x) u) = 0 \<longleftrightarrow>
      a * a = 0 \<and> sum_list (map (\<lambda>x. x * x) u) = 0"
    by (simp add: add_nonneg_eq_0_iff)
  with Cons show ?case by simp
qed

lemma vlength_zero: "vlength u = 0 \<longleftrightarrow> (\<forall>x \<in> set u. x = 0)"
  by (simp add: vlength_def sum_squares_zero)

lemma vlength_normalize: "vlength u \<noteq> 0 \<Longrightarrow> vlength (normalize u) = 1"
proof -
  assume nz: "vlength u \<noteq> 0"
  let ?L = "vlength u"
  have "0 \<le> sum_list (map (\<lambda>x. x * x) u)"
    by (rule sum_list_nonneg) auto
  then have sq: "?L * ?L = sum_list (map (\<lambda>x. x * x) u)"
    unfolding vlength_def by simp
  have "sum_list (map (\<lambda>x. (x / L) * (x / L)) w) = sum_list (map (\<lambda>x. x * x) w) / (L * L)"
    for L :: real and w
    by (induction w) (simp_all add: add_divide_distrib)
  then have "sum_list (map (\<lambda>x. (x / ?L) * (x / ?L)) u) = sum_list (map (\<lambda>x. x * x) u) / (?L * ?L)" .
  also have "\<dots> = 1"
    using nz by (simp add: sq [symmetric])
  finally show ?thesis
    using nz by (simp add: normalize_def vlength_def [of "map (\<lambda>x. x / vlength u) u"] comp_def)
qed

lemma normalize_zero: "vlength u = 0 \<Longrightarrow> normalize u = u"
  by (simp add: normalize_def)

lemma mv_spec_unit: "vlength u \<noteq> 0 \<Longrightarrow> vlength (mv_normalize mv_spec u) = 1"
  by (simp add: mv_spec_def vlength_normalize)

lemma mv_spec_zero: "mv_normalize mv_spec (mv_vec4 mv_spec [0, 0, 0, 0]) = mv_vec4 mv_spec [0, 0, 0, 0]"
  by (simp add: mv_spec_def vec4_def normalize_def)

lemma ensure_vec4_index:
  "ensure_vec4 M (elem verts j) w = Inr a \<Longrightarrow> 0 \<le> j \<and> nat j < length verts"
  by (auto simp add: ensure_vec4_def elem_def split: option.splits if_splits)

lemma face_norm_index:
  assumes "face_norm M strip verts p j k l = Inr f"
  shows "0 \<le> j \<and> nat j < length verts \<and> 0 \<le> k \<and> nat k < length verts
       \<and> 0 \<le> l \<and> nat l < length verts"
proof -
  from assms obtain a b c where "ensure_vec4 M (elem verts j) 1 = Inr a"
    and "ensure_vec4 M (elem verts k) 1 = Inr b" and "ensure_vec4 M (elem verts l) 1 = Inr c"
    by (auto simp add: face_norm_def split: sum.splits)
  then show ?thesis
    by (auto dest: ensure_vec4_index)
qed

lemma add_face_Inr:
  assumes "add_face M strip verts p j k l ms = Inr ms'"
  obtains f where "face_norm M strip verts p j k l = Inr f"
    and "ms' = ms[nat j := mv_add M (ms ! nat j) f,
                 nat k := mv_add M (ms[nat j := mv_add M (ms ! nat j) f] ! nat k) f,
                 nat l := mv_add M (ms[nat j := mv_add M (ms ! nat j) f,
                   nat k := mv_add M (ms[nat j := mv_add M (ms ! nat j) f] ! nat k) f] ! nat l) f]"
proof (cases "face_norm M strip verts p j k l")
  case (Inl e)
  with assms show ?thesis
    by (simp add: add_face_def)
next
  case (Inr f)
  with assms show ?thesis
    by (intro that [of f]) (simp_all add: add_face_def Let_def)
qed

text \<open>
  One round of the loop at a triangle with three different corners: the accumulator of a
  corner receives the face normal once, every other accumulator stays.
\<close>

lemma add_face_nth:
  assumes af: "add_face M strip verts p j k l ms = Inr ms'"
      and d: "j \<noteq> k" "k \<noteq> l" "l \<noteq> j"
      and len: "length ms = length verts"
  shows "ms' ! v =
     (if j = int v \<or> k = int v \<or> l = int v
      then mv_add M (ms ! v) (case face_norm M strip verts p j k l of Inl e \<Rightarrow> [] | Inr f \<Rightarrow> f)
      else ms ! v)"
proof -
  from af obtain f where f: "face_norm M strip verts p j k l = Inr f"
    and ms': "ms' = ms[nat j := mv_add M (ms ! nat j) f,
                 nat k := mv_add M (ms[nat j := mv_add M (ms ! nat j) f] ! nat k) f,
                 nat l := mv_add M (ms[nat j := mv_add M (ms ! nat j) f,
                   nat k := mv_add M (ms[nat j := mv_add M (ms ! nat j) f] ! nat k) f] ! nat l) f]"
    by (rule add_face_Inr)
  from face_norm_index [OF f] len have r: "0 \<le> j" "nat j < length ms" "0 \<le> k"
      "nat k < length ms" "0 \<le> l" "nat l < length ms"
    by simp_all
  from r d have n: "nat j \<noteq> nat k" "nat k \<noteq> nat l" "nat l \<noteq> nat j"
    by auto
  have iff: "j = int v \<longleftrightarrow> nat j = v" "k = int v \<longleftrightarrow> nat k = v" "l = int v \<longleftrightarrow> nat l = v"
    using r by auto
  show ?thesis
    unfolding ms' f iff using r n by (auto simp add: nth_list_update)
qed

lemma acc_loop_sum:
  assumes "acc_loop M strip verts inds skip i c ns = Inr ns'"
      and "length ns = length verts"
  shows "ns' ! v = foldl (mv_add M) (ns ! v)
     (map (triangle_normal M strip verts inds)
        (filter (\<lambda>p. touches inds p v) (contributing strip inds skip i c)))"
  using assms
proof (induction M strip verts inds skip i c ns rule: acc_loop.induct)
  case (1 M strip verts inds skip i c normals)
  let ?next = "i + (if strip then 1 else 3)"
  show ?case
  proof (cases "int i < int (length inds) - 2")
    case False
    then have "contributing strip inds skip i c = []"
      by (subst contributing.simps) simp
    moreover from False "1.prems"(1) have "ns' = normals"
      by (subst (asm) acc_loop.simps) simp
    ultimately show ?thesis
      by simp
  next
    case in_range: True
    show ?thesis
    proof (cases "elem skip (int c) = Some (int i)")
      case True
      have c: "contributing strip inds skip i c = contributing strip inds skip ?next (c + 1)"
        using in_range True by (subst contributing.simps) simp
      have "acc_loop M strip verts inds skip ?next (c + 1) normals = Inr ns'"
        using "1.prems"(1) in_range True by (subst (asm) acc_loop.simps) simp
      from "1.IH"(1) [OF in_range True this "1.prems"(2)] show ?thesis
        by (simp only: c)
    next
      case not_skipped: False
      show ?thesis
      proof (cases "inds ! i = inds ! (i + 1) \<or> inds ! (i + 1) = inds ! (i + 2)
                      \<or> inds ! (i + 2) = inds ! i")
        case True
        have c: "contributing strip inds skip i c = contributing strip inds skip ?next c"
          using in_range not_skipped True by (subst contributing.simps) simp
        have "acc_loop M strip verts inds skip ?next c normals = Inr ns'"
          using "1.prems"(1) in_range not_skipped True by (subst (asm) acc_loop.simps) simp
        from "1.IH"(2) [OF in_range not_skipped True this "1.prems"(2)] show ?thesis
          by (simp only: c)
      next
        case proper: False
        have c: "contributing strip inds skip i c = i # contributing strip inds skip ?next c"
          using in_range not_skipped proper by (subst contributing.simps) simp
        show ?thesis
        proof (cases "add_face M strip verts i (inds ! i) (inds ! (i + 1)) (inds ! (i + 2)) normals")
          case (Inl e)
          with "1.prems"(1) in_range not_skipped proper show ?thesis
            by (subst (asm) acc_loop.simps) simp
        next
          case (Inr ms)
          have rest: "acc_loop M strip verts inds skip ?next c ms = Inr ns'"
            using "1.prems"(1) in_range not_skipped proper Inr
            by (subst (asm) acc_loop.simps) simp
          have len: "length ms = length verts"
            using add_face_length [OF Inr] "1.prems"(2) by simp
          from proper have d: "inds ! i \<noteq> inds ! (i + 1)" "inds ! (i + 1) \<noteq> inds ! (i + 2)"
              "inds ! (i + 2) \<noteq> inds ! i"
            by simp_all
          have step: "ms ! v = (if touches inds i v
              then mv_add M (normals ! v) (triangle_normal M strip verts inds i)
              else normals ! v)"
            using add_face_nth [OF Inr d "1.prems"(2), of v]
            by (simp add: touches_def triangle_normal_def)
          from "1.IH"(3) [OF in_range not_skipped proper Inr rest len] show ?thesis
            by (simp add: c step)
        qed
      qed
    qed
  qed
qed

text \<open>
  Claim C3, as amended. When \<open>calc_normals\<close> returns, it returns one normal per vertex:
  \<open>normalize\<close> applied to the sum of the face normals of the contributing (not skipped, not
  degenerate) triangles that have the vertex as a corner, added in the order of the loop
  to \<open>vec4(0, 0, 0, 0)\<close>. A vertex that is no corner of a contributing triangle receives
  \<open>normalize(vec4(0, 0, 0, 0))\<close>, which is the zero vector when \<open>normalize\<close> keeps the zero
  vector. A vertex whose sum has a length other than 0 receives a normal of unit length
  when \<open>normalize\<close> returns a vector of length 1 for every vector of non-zero length. The
  functions modelled from the spec in exact arithmetic are such. (As the claim states
  it, it fails: the face normals of two triangles over the same corners with opposite
  winding cancel, see the counterexample.)
\<close>

theorem calc_normals_unit_or_zero:
  assumes "verts < length (vec_arrays s)" and "inds < length (num_arrays s)"
      and "case skip of None \<Rightarrow> True | Some a \<Rightarrow> a < length (num_arrays s)"
      and "calc_normals M s verts inds strip skip = Inr (normals, s')"
      and "v < length (vecs s verts)"
      and "ps = contributing (strip_default strip) (nums s inds) (sorted_skip s skip) 0 0"
      and "vsum = vertex_sum M (strip_default strip) (vecs s verts) (nums s inds) ps v"
  shows "length (vecs s' normals) = length (vecs s verts)
       \<and> vecs s' normals ! v = mv_normalize M vsum
       \<and> ((\<forall>p \<in> set ps. \<not> touches (nums s inds) p v) \<longrightarrow>
            vsum = mv_vec4 M [0, 0, 0, 0]
            \<and> vecs s' normals ! v = mv_normalize M (mv_vec4 M [0, 0, 0, 0]))
       \<and> (mv_normalize M (mv_vec4 M [0, 0, 0, 0]) = mv_vec4 M [0, 0, 0, 0]
            \<and> (\<forall>p \<in> set ps. \<not> touches (nums s inds) p v)
          \<longrightarrow> vecs s' normals ! v = mv_vec4 M [0, 0, 0, 0])
       \<and> ((\<forall>u. vlength u \<noteq> 0 \<longrightarrow> vlength (mv_normalize M u) = 1) \<and> vlength vsum \<noteq> 0
          \<longrightarrow> vlength (vecs s' normals ! v) = 1)
       \<and> (M = mv_spec \<longrightarrow>
            (vlength vsum \<noteq> 0 \<longrightarrow> vlength (vecs s' normals ! v) = 1)
            \<and> (vlength vsum = 0 \<longrightarrow> vecs s' normals ! v = vsum)
            \<and> ((\<forall>p \<in> set ps. \<not> touches (nums s inds) p v) \<longrightarrow>
                 vecs s' normals ! v = [0, 0, 0, 0]))"
proof -
  let ?sk = "sorted_skip s skip"
  let ?zero = "replicate (length (vecs s verts)) (mv_vec4 M [0, 0, 0, 0])"
  note calc = calc_normals_pure [OF assms(1,2,3), where strip = strip and M = M]
  have "\<exists>acc. acc_loop M (strip_default strip) (vecs s verts) (nums s inds) ?sk 0 0 ?zero = Inr acc
      \<and> normals = length (vec_arrays s) \<and> s' = with_arrays s (map (mv_normalize M) acc) ?sk"
  proof (cases "acc_loop M (strip_default strip) (vecs s verts) (nums s inds) ?sk 0 0 ?zero")
    case (Inl a)
    with assms(4) show ?thesis
      by (cases a) (simp add: calc)
  next
    case (Inr acc)
    with assms(4) show ?thesis
      by (simp add: calc)
  qed
  then obtain acc where
    loop: "acc_loop M (strip_default strip) (vecs s verts) (nums s inds) ?sk 0 0 ?zero = Inr acc"
    and normals: "normals = length (vec_arrays s)"
    and s': "s' = with_arrays s (map (mv_normalize M) acc) ?sk"
    by blast
  have len: "length acc = length (vecs s verts)"
    using acc_loop_length [OF loop] by simp
  have rd: "vecs s' normals = map (mv_normalize M) acc"
    by (simp add: s' normals with_arrays_def vecs_def)
  have v: "v < length acc"
    using assms(5) len by simp
  have "acc ! v = foldl (mv_add M) (?zero ! v)
      (map (triangle_normal M (strip_default strip) (vecs s verts) (nums s inds))
         (filter (\<lambda>p. touches (nums s inds) p v) ps))"
    unfolding assms(6) by (rule acc_loop_sum [OF loop]) simp
  then have vsum: "acc ! v = vsum"
    using assms(5) by (simp add: assms(7) vertex_sum_def)
  have n: "vecs s' normals ! v = mv_normalize M vsum"
    using v by (simp add: rd vsum)
  have l: "length (vecs s' normals) = length (vecs s verts)"
    by (simp add: rd len)
  have untouched: "vsum = mv_vec4 M [0, 0, 0, 0]"
    if "\<forall>p \<in> set ps. \<not> touches (nums s inds) p v"
  proof -
    from that have "filter (\<lambda>p. touches (nums s inds) p v) ps = []"
      by (simp add: filter_empty_conv)
    then show ?thesis
      by (simp add: assms(7) vertex_sum_def)
  qed
  have spec: "(vlength vsum \<noteq> 0 \<longrightarrow> vlength (vecs s' normals ! v) = 1)
      \<and> (vlength vsum = 0 \<longrightarrow> vecs s' normals ! v = vsum)
      \<and> ((\<forall>p \<in> set ps. \<not> touches (nums s inds) p v) \<longrightarrow> vecs s' normals ! v = [0, 0, 0, 0])"
    if "M = mv_spec"
    using n untouched mv_spec_zero
    by (auto simp add: that mv_spec_unit) (simp_all add: mv_spec_def normalize_zero vec4_def)
  from l n untouched spec show ?thesis
    by auto
qed

theorem calc_normals_unit_or_zero_witness:
  "0 < length (vec_arrays quad_store) \<and> 5 < length (num_arrays quad_store)
   \<and> calc_normals mv_spec quad_store 0 5 (Some False) None =
       Inr (1, with_arrays quad_store [[0, 0, - 1, 0], [0, 0, - 1, 0], [0, 0, - 1, 0], [0, 0, 0, 0]]
                 [- 1])
   \<and> contributing (strip_default (Some False)) (nums quad_store 5)
        (sorted_skip quad_store None) 0 0 = [0]
   \<and> vertex_sum mv_spec (strip_default (Some False)) (vecs quad_store 0) (nums quad_store 5)
        [0] 0 = [0, 0, - 1, 0]
   \<and> vlength (vertex_sum mv_spec (strip_default (Some False)) (vecs quad_store 0)
        (nums quad_store 5) [0] 0) \<noteq> 0
   \<and> vlength (vecs (with_arrays quad_store
         [[0, 0, - 1, 0], [0, 0, - 1, 0], [0, 0, - 1, 0], [0, 0, 0, 0]] [- 1]) 1 ! 0) = 1
   \<and> \<not> touches (nums quad_store 5) 0 3
   \<and> vecs (with_arrays quad_store
         [[0, 0, - 1, 0], [0, 0, - 1, 0], [0, 0, - 1, 0], [0, 0, 0, 0]] [- 1]) 1 ! 3
       = [0, 0, 0, 0]"
proof -
  let ?s' = "with_arrays quad_store [[0, 0, - 1, 0], [0, 0, - 1, 0], [0, 0, - 1, 0], [0, 0, 0, 0]]
               [- 1]"
  let ?ps = "contributing (strip_default (Some False)) (nums quad_store 5)
               (sorted_skip quad_store None) 0 0"
  have h: "0 < length (vec_arrays quad_store)" "5 < length (num_arrays quad_store)"
    "case None of None \<Rightarrow> True | Some a \<Rightarrow> a < length (num_arrays quad_store)"
    by (simp_all add: quad_store_def)
  have loop: "acc_loop mv_spec (strip_default (Some False)) (vecs quad_store 0)
      (nums quad_store 5) [- 1] 0 0
      (replicate (length (vecs quad_store 0)) (mv_vec4 mv_spec [0, 0, 0, 0])) =
      Inr [[0, 0, - 1, 0], [0, 0, - 1, 0], [0, 0, - 1, 0], [0, 0, 0, 0]]"
    by (simp add: quad_store_def eval_simps)
  have nm: "map (mv_normalize mv_spec)
      [[0, 0, - 1, 0], [0, 0, - 1, 0], [0, 0, - 1, 0], [0, 0, 0, 0]] =
      [[0, 0, - 1, 0], [0, 0, - 1, 0], [0, 0, - 1, 0], [0, 0, 0, 0]]"
    by (simp add: mv_spec_def normalize_def vlength_def)
  have ss: "sorted_skip quad_store None = [- 1]"
    by (simp add: sorted_skip_def)
  have lv: "length (vec_arrays quad_store) = 1"
    by (simp add: quad_store_def)
  have r: "calc_normals mv_spec quad_store 0 5 (Some False) None = Inr (1, ?s')"
    by (simp only: calc_normals_pure [OF h] ss loop sum.case nm lv)
  have v: "0 < length (vecs quad_store 0)" "3 < length (vecs quad_store 0)"
    by (simp_all add: quad_store_def vecs_def)
  have ps: "?ps = [0]"
    by (simp add: quad_store_def nums_def strip_default_def sorted_skip_def contributing.simps
        elem_def)
  have vs: "vertex_sum mv_spec (strip_default (Some False)) (vecs quad_store 0)
      (nums quad_store 5) [0] 0 = [0, 0, - 1, 0]"
    by (simp add: quad_store_def vertex_sum_def triangle_normal_def touches_def eval_simps)
  have nz: "vlength [0, 0, - 1, 0] \<noteq> 0"
    by (simp add: vlength_def)
  have nt: "\<not> touches (nums quad_store 5) 0 3"
    by (simp add: quad_store_def nums_def touches_def)
  from calc_normals_unit_or_zero [OF h r v(1) refl refl]
  have "vlength (vertex_sum mv_spec (strip_default (Some False)) (vecs quad_store 0)
          (nums quad_store 5) ?ps 0) \<noteq> 0 \<longrightarrow> vlength (vecs ?s' 1 ! 0) = 1"
    by blast
  with ps vs nz have unit: "vlength (vecs ?s' 1 ! 0) = 1"
    by simp
  from calc_normals_unit_or_zero [OF h r v(2) refl refl]
  have "(\<forall>p \<in> set ?ps. \<not> touches (nums quad_store 5) p 3) \<longrightarrow> vecs ?s' 1 ! 3 = [0, 0, 0, 0]"
    by blast
  with ps nt have zero: "vecs ?s' 1 ! 3 = [0, 0, 0, 0]"
    by simp
  from h(1,2) r ps vs nz unit nt zero show ?thesis
    by simp
qed

text \<open>
  The claim as it is stated fails. In the index sequence \<open>[0, 1, 2, 0, 2, 1]\<close> over the
  corners of the unit square, read as a triangle list, the vertex 0 is a corner of two
  contributing triangles with three different corners each; their face normals
  \<open>(0, 0, -1)\<close> and \<open>(0, 0, 1)\<close> cancel, and the vertex receives the zero vector, which is
  not of unit length. The coordinates are small integers, on which the operations of
  doubles are exact.
\<close>

theorem calc_normals_unit_counterexample:
  "contributing (strip_default (Some False)) (nums quad_store 6)
     (sorted_skip quad_store None) 0 0 = [0, 3]
   \<and> touches (nums quad_store 6) 0 0 \<and> touches (nums quad_store 6) 3 0
   \<and> triangle_normal mv_spec False (vecs quad_store 0) (nums quad_store 6) 0 = [0, 0, - 1, 0]
   \<and> triangle_normal mv_spec False (vecs quad_store 0) (nums quad_store 6) 3 = [0, 0, 1, 0]
   \<and> normals_of (calc_normals mv_spec quad_store 0 6 (Some False) None) =
       Inr [[0, 0, 0, 0], [0, 0, 0, 0], [0, 0, 0, 0], [0, 0, 0, 0]]
   \<and> vlength [0, 0, 0, 0] \<noteq> 1"
  by (simp add: quad_store_def eval_simps contributing.simps touches_def triangle_normal_def)

lemma add_face_list_mode:
  "add_face M False verts i j k l ns = add_face M False verts i' j k l ns"
  by (simp add: add_face_def face_norm_def Let_def cong: sum.case_cong)

lemma acc_loop_shift:
  assumes a: "a + 3 \<le> length inds"
  shows "a \<le> p \<Longrightarrow>
         acc_loop M False verts inds [int a, - 1] (p + 3) 1 ns =
         acc_loop M False verts (take a inds @ drop (a + 3) inds) [- 1] p 0 ns"
proof (induction "length inds - p" arbitrary: p ns rule: less_induct)
  case less
  let ?inds' = "take a inds @ drop (a + 3) inds"
  have len: "length ?inds' = length inds - 3"
    using a by simp
  have nth: "?inds' ! (p + e) = inds ! (p + 3 + e)" for e
  proof -
    have "?inds' ! (p + e) = drop (a + 3) inds ! (p + e - a)"
      using a less.prems by (simp add: nth_append)
    also have "\<dots> = inds ! (a + 3 + (p + e - a))"
      using a by simp
    also have "a + 3 + (p + e - a) = p + 3 + e"
      using less.prems by arith
    finally show ?thesis .
  qed
  have nth0: "?inds' ! p = inds ! (p + 3)"
    using nth [of 0] by simp
  show ?case
  proof (cases "int (p + 3) < int (length inds) - 2")
    case False
    then have "\<not> int p < int (length ?inds') - 2"
      using len a by simp
    with False show ?thesis
      by (subst acc_loop.simps, subst (2) acc_loop.simps) simp
  next
    case True
    then have r: "int p < int (length ?inds') - 2"
      using len a by simp
    from True have "length inds - (p + 3) < length inds - p"
      by simp
    then have IH: "acc_loop M False verts inds [int a, - 1] (p + 3 + 3) 1 ms =
        acc_loop M False verts ?inds' [- 1] (p + 3) 0 ms" for ms
      using less.hyps [of "p + 3" ms] less.prems by simp
    have L: "acc_loop M False verts inds [int a, - 1] (p + 3) 1 ns =
        (if inds ! (p + 3) = inds ! (p + 3 + 1) \<or> inds ! (p + 3 + 1) = inds ! (p + 3 + 2)
              \<or> inds ! (p + 3 + 2) = inds ! (p + 3)
         then acc_loop M False verts inds [int a, - 1] (p + 3 + 3) 1 ns
         else (case add_face M False verts (p + 3) (inds ! (p + 3)) (inds ! (p + 3 + 1))
                      (inds ! (p + 3 + 2)) ns of
                 Inl e \<Rightarrow> Inl (e, ns)
               | Inr ms \<Rightarrow> acc_loop M False verts inds [int a, - 1] (p + 3 + 3) 1 ms))"
      using True by (subst acc_loop.simps) (simp add: elem_def)
    have R: "acc_loop M False verts ?inds' [- 1] p 0 ns =
        (if ?inds' ! p = ?inds' ! (p + 1) \<or> ?inds' ! (p + 1) = ?inds' ! (p + 2)
              \<or> ?inds' ! (p + 2) = ?inds' ! p
         then acc_loop M False verts ?inds' [- 1] (p + 3) 0 ns
         else (case add_face M False verts p (?inds' ! p) (?inds' ! (p + 1)) (?inds' ! (p + 2)) ns of
                 Inl e \<Rightarrow> Inl (e, ns)
               | Inr ms \<Rightarrow> acc_loop M False verts ?inds' [- 1] (p + 3) 0 ms))"
      using r by (subst acc_loop.simps) (simp add: elem_def)
    show ?thesis
      unfolding L R nth nth0 IH
      by (simp add: add_face_list_mode [of M verts "p + 3" _ _ _ _ p])
  qed
qed

lemma acc_loop_prefix:
  assumes a: "3 * t + 2 < length inds"
  shows "m \<le> t \<Longrightarrow>
         acc_loop M False verts inds [int (3 * t), - 1] (3 * m) 0 ns =
         acc_loop M False verts (take (3 * t) inds @ drop (3 * t + 3) inds) [- 1] (3 * m) 0 ns"
proof (induction "t - m" arbitrary: m ns rule: less_induct)
  case less
  let ?a = "3 * t"
  let ?p = "3 * m"
  let ?inds' = "take ?a inds @ drop (?a + 3) inds"
  have len: "length ?inds' = length inds - 3"
    using a by simp
  have inr: "int ?p < int (length inds) - 2"
    using a less.prems by simp
  show ?case
  proof (cases "m = t")
    case True
    have "acc_loop M False verts inds [int ?a, - 1] ?a 0 ns =
          acc_loop M False verts inds [int ?a, - 1] (?a + 3) 1 ns"
      using inr True by (subst acc_loop.simps) (simp add: elem_def)
    also have "\<dots> = acc_loop M False verts ?inds' [- 1] ?a 0 ns"
      using a by (intro acc_loop_shift) simp_all
    finally show ?thesis
      using True by simp
  next
    case False
    with less.prems have mt: "m < t" by simp
    then have r: "int ?p < int (length ?inds') - 2"
      using len a by simp
    have nth: "?inds' ! (?p + e) = inds ! (?p + e)" if "e < 3" for e
      using a mt that by (simp add: nth_append)
    have nth0: "?inds' ! ?p = inds ! ?p"
      using nth [of 0] by simp
    have nth1: "?inds' ! (?p + 1) = inds ! (?p + 1)"
      using nth [of 1] by simp
    have nth2: "?inds' ! (?p + 2) = inds ! (?p + 2)"
      using nth [of 2] by simp
    have IH: "acc_loop M False verts inds [int ?a, - 1] (?p + 3) 0 ms =
        acc_loop M False verts ?inds' [- 1] (?p + 3) 0 ms" for ms
      using less.hyps [of "Suc m" ms] mt by (simp add: add.commute)
    have L: "acc_loop M False verts inds [int ?a, - 1] ?p 0 ns =
        (if inds ! ?p = inds ! (?p + 1) \<or> inds ! (?p + 1) = inds ! (?p + 2)
              \<or> inds ! (?p + 2) = inds ! ?p
         then acc_loop M False verts inds [int ?a, - 1] (?p + 3) 0 ns
         else (case add_face M False verts ?p (inds ! ?p) (inds ! (?p + 1)) (inds ! (?p + 2)) ns of
                 Inl e \<Rightarrow> Inl (e, ns)
               | Inr ms \<Rightarrow> acc_loop M False verts inds [int ?a, - 1] (?p + 3) 0 ms))"
      using inr mt by (subst acc_loop.simps) (simp add: elem_def)
    have R: "acc_loop M False verts ?inds' [- 1] ?p 0 ns =
        (if ?inds' ! ?p = ?inds' ! (?p + 1) \<or> ?inds' ! (?p + 1) = ?inds' ! (?p + 2)
              \<or> ?inds' ! (?p + 2) = ?inds' ! ?p
         then acc_loop M False verts ?inds' [- 1] (?p + 3) 0 ns
         else (case add_face M False verts ?p (?inds' ! ?p) (?inds' ! (?p + 1)) (?inds' ! (?p + 2)) ns of
                 Inl e \<Rightarrow> Inl (e, ns)
               | Inr ms \<Rightarrow> acc_loop M False verts ?inds' [- 1] (?p + 3) 0 ms))"
      using r by (subst acc_loop.simps) (simp add: elem_def)
    show ?thesis
      unfolding L R nth0 nth1 nth2 IH ..
  qed
qed


text \<open>
  Claim C4, as amended. With triangle-list topology (\<open>strip = false\<close>), calling
  \<open>calc_normals\<close> with the skip list \<open>[i]\<close>, where \<open>i = 3t\<close> is the start of a triangle of
  the index sequence, produces the same output (the same normals, or the same exception)
  as calling it without skip list on the index sequence with the entries \<open>i\<close>, \<open>i + 1\<close> and
  \<open>i + 2\<close> removed. And in either topology the round of the accumulation loop at a
  triangle whose triple has a repeated index adds nothing: the loop continues at the next
  position with the store as it was.
\<close>

theorem skip_equals_removal:
  assumes "verts < length (vec_arrays s)" and "inds < length (num_arrays s)"
      and "inds' < length (num_arrays s)" and "skip < length (num_arrays s)"
      and "nums s skip = [int (3 * t)]"
      and "3 * t + 2 < length (nums s inds)"
      and "nums s inds' = take (3 * t) (nums s inds) @ drop (3 * t + 3) (nums s inds)"
  shows "normals_of (calc_normals M s verts inds (Some False) (Some skip)) =
         normals_of (calc_normals M s verts inds' (Some False) None)
       \<and> (int i < int (length (nums s2 ia)) - 2
            \<and> (nums s2 ia ! i = nums s2 ia ! (i + 1) \<or> nums s2 ia ! (i + 1) = nums s2 ia ! (i + 2)
                 \<or> nums s2 ia ! (i + 2) = nums s2 ia ! i)
          \<longrightarrow> (\<exists>c'. normals_loop M strip va ia ska na i c s2 =
                      normals_loop M strip va ia ska na (i + (if strip then 1 else 3)) c' s2))"
proof
  have "acc_loop M False (vecs s verts) (nums s inds) [int (3 * t), - 1] (3 * 0) 0 ns =
        acc_loop M False (vecs s verts) (nums s inds') [- 1] (3 * 0) 0 ns" for ns
    unfolding assms(7) by (rule acc_loop_prefix [OF assms(6)]) simp
  then show "normals_of (calc_normals M s verts inds (Some False) (Some skip)) =
         normals_of (calc_normals M s verts inds' (Some False) None)"
    using assms(1-5)
    by (simp add: normals_of_pure sorted_skip_def strip_default_def)
next
  show "int i < int (length (nums s2 ia)) - 2
            \<and> (nums s2 ia ! i = nums s2 ia ! (i + 1) \<or> nums s2 ia ! (i + 1) = nums s2 ia ! (i + 2)
                 \<or> nums s2 ia ! (i + 2) = nums s2 ia ! i)
          \<longrightarrow> (\<exists>c'. normals_loop M strip va ia ska na i c s2 =
                      normals_loop M strip va ia ska na (i + (if strip then 1 else 3)) c' s2)"
  proof
    assume d: "int i < int (length (nums s2 ia)) - 2
            \<and> (nums s2 ia ! i = nums s2 ia ! (i + 1) \<or> nums s2 ia ! (i + 1) = nums s2 ia ! (i + 2)
                 \<or> nums s2 ia ! (i + 2) = nums s2 ia ! i)"
    show "\<exists>c'. normals_loop M strip va ia ska na i c s2 =
                      normals_loop M strip va ia ska na (i + (if strip then 1 else 3)) c' s2"
    proof (cases "elem (nums s2 ska) (int c) = Some (int i)")
      case True
      with d have "normals_loop M strip va ia ska na i c s2 =
          normals_loop M strip va ia ska na (i + (if strip then 1 else 3)) (c + 1) s2"
        by (subst normals_loop.simps) (simp add: Let_def)
      then show ?thesis ..
    next
      case False
      with d have "normals_loop M strip va ia ska na i c s2 =
          normals_loop M strip va ia ska na (i + (if strip then 1 else 3)) c s2"
        by (subst normals_loop.simps) (auto simp add: Let_def)
      then show ?thesis ..
    qed
  qed
qed

theorem skip_equals_removal_counterexample:
  "normals_of (calc_normals mv_spec quad_store 0 0 None (Some 1)) \<noteq>
   normals_of (calc_normals mv_spec quad_store 0 2 None None)
   \<and> nums quad_store 2 = take 0 (nums quad_store 0) @ drop 3 (nums quad_store 0)
   \<and> normals_of (calc_normals mv_spec quad_store 0 3 (Some False) (Some 4)) \<noteq>
     normals_of (calc_normals mv_spec quad_store 0 5 (Some False) None)
   \<and> nums quad_store 5 = take 3 (nums quad_store 3) @ drop 6 (nums quad_store 3)
   \<and> 3 \<in> set (nums quad_store 4)"
  by (simp add: quad_store_def eval_simps)

theorem skip_equals_removal_witness:
  "0 < length (vec_arrays quad_store) \<and> 3 < length (num_arrays quad_store)
   \<and> 5 < length (num_arrays quad_store) \<and> 2 < length (num_arrays quad_store)
   \<and> nums quad_store 2 = [int (3 * 1)] \<and> 3 * 1 + 2 < length (nums quad_store 3)
   \<and> nums quad_store 5 = take (3 * 1) (nums quad_store 3) @ drop (3 * 1 + 3) (nums quad_store 3)
   \<and> normals_of (calc_normals mv_spec quad_store 0 3 (Some False) (Some 2)) =
       normals_of (calc_normals mv_spec quad_store 0 5 (Some False) None)
   \<and> int 0 < int (length (nums quad_store 8)) - 2
   \<and> nums quad_store 8 ! 0 = nums quad_store 8 ! (0 + 1)
   \<and> (\<exists>c'. normals_loop mv_spec True 0 8 1 0 0 0 quad_store =
          normals_loop mv_spec True 0 8 1 0 (0 + 1) c' quad_store)"
proof -
  have h: "0 < length (vec_arrays quad_store)" "3 < length (num_arrays quad_store)"
    "5 < length (num_arrays quad_store)" "2 < length (num_arrays quad_store)"
    "nums quad_store 2 = [int (3 * 1)]" "3 * 1 + 2 < length (nums quad_store 3)"
    "nums quad_store 5 = take (3 * 1) (nums quad_store 3) @ drop (3 * 1 + 3) (nums quad_store 3)"
    by (simp_all add: quad_store_def nums_def)
  have d: "int 0 < int (length (nums quad_store 8)) - 2"
    "nums quad_store 8 ! 0 = nums quad_store 8 ! (0 + 1)"
    by (simp_all add: quad_store_def nums_def)
  from skip_equals_removal [OF h, of mv_spec 0 quad_store 8 True 0 1 0 0] d h show ?thesis
    by simp
qed

section \<open>Properties of the OBJ loader\<close>

lemmas token_simps = face_type_def type_test_def signed_int_def is_digits_def is_digit_def
  to_int_def digits_value_def resolve_def

subsection \<open>Decimal notation\<close>

lemma digit_cases:
  assumes "d < (10::nat)"
  shows "d = 0 \<or> d = 1 \<or> d = 2 \<or> d = 3 \<or> d = 4 \<or> d = 5 \<or> d = 6 \<or> d = 7 \<or> d = 8 \<or> d = 9"
  using assms by arith

lemma digit_char:
  assumes "d < 10"
  shows "is_digit (''0123456789'' ! d)"
    and "of_char (''0123456789'' ! d) - 48 = d"
  using digit_cases [OF assms] by (auto simp add: is_digit_def)

lemma is_digit_not_sign: "is_digit c \<Longrightarrow> c \<noteq> CHR ''-'' \<and> c \<noteq> CHR ''/''"
  by (auto simp add: is_digit_def)

lemma show_nat_digits: "show_nat n \<noteq> [] \<and> list_all is_digit (show_nat n)"
proof (induction n rule: show_nat.induct)
  case (1 n)
  show ?case
  proof (cases "n < 10")
    case True
    then show ?thesis
      by (subst (1 2) show_nat.simps) (simp add: digit_char)
  next
    case False
    have "n mod 10 < 10"
      by simp
    then have "is_digit (''0123456789'' ! (n mod 10))"
      by (rule digit_char)
    with False 1 show ?thesis
      by (subst (1 2) show_nat.simps) (simp)
  qed
qed

lemma digits_value_snoc: "digits_value (s @ [c]) = 10 * digits_value s + (of_char c - 48)"
  by (simp add: digits_value_def)

lemma digits_value_show_nat: "digits_value (show_nat n) = n"
proof (induction n rule: show_nat.induct)
  case (1 n)
  show ?case
  proof (cases "n < 10")
    case True
    then show ?thesis
      by (subst show_nat.simps) (simp add: digits_value_def digit_char)
  next
    case False
    have "n mod 10 < 10"
      by simp
    then have d: "of_char (''0123456789'' ! (n mod 10)) - 48 = n mod 10"
      by (rule digit_char)
    from False 1 have "digits_value (show_nat (n div 10)) = n div 10"
      by simp
    with False d show ?thesis
      by (subst show_nat.simps) (simp add: digits_value_snoc)
  qed
qed

lemma show_nat_Cons: "\<exists>c r. show_nat n = c # r \<and> is_digit c \<and> list_all is_digit r"
  using show_nat_digits [of n] by (cases "show_nat n") simp_all

lemma to_int_show_int: "to_int (show_int x) = x"
proof (cases "x < 0")
  case True
  then show ?thesis
    by (simp add: show_int_def to_int_def digits_value_show_nat)
next
  case False
  from show_nat_Cons obtain c r where s: "show_nat (nat x) = c # r" and c: "is_digit c"
    by blast
  from c have "c \<noteq> CHR ''-''"
    by (simp add: is_digit_not_sign)
  moreover have "digits_value (c # r) = nat x"
    using digits_value_show_nat [of "nat x"] by (simp only: s)
  ultimately show ?thesis
    using False by (simp add: show_int_def to_int_def s)
qed

lemma signed_int_show_int: "signed_int (show_int x)"
proof (cases "x < 0")
  case True
  with show_nat_digits [of "nat (- x)"] show ?thesis
    by (simp add: show_int_def signed_int_def is_digits_def)
next
  case False
  from show_nat_Cons obtain c r where s: "show_nat (nat x) = c # r" and c: "is_digit c"
    and r: "list_all is_digit r"
    by blast
  from c have "c \<noteq> CHR ''-''"
    by (simp add: is_digit_not_sign)
  with False c r show ?thesis
    by (simp add: show_int_def signed_int_def is_digits_def s)
qed

lemma show_int_no_slash: "CHR ''/'' \<notin> set (show_int x)"
proof -
  have "CHR ''/'' \<notin> set (show_nat n)" for n
    using show_nat_digits [of n] is_digit_not_sign by (auto simp add: list_all_iff)
  then show ?thesis
    by (simp add: show_int_def)
qed

lemma show_int_not_Nil: "show_int x \<noteq> []"
  using show_nat_digits by (simp add: show_int_def)

subsection \<open>Splitting and the face types\<close>

lemma split_on_none: "sep \<notin> set s \<Longrightarrow> split_on sep s = [s]"
  by (induction s) auto

lemma split_on_append:
  "sep \<notin> set a \<Longrightarrow> split_on sep (a @ sep # b) = a # split_on sep b"
  by (induction a) auto

lemma slash_not_signed_int:
  assumes "CHR ''/'' \<in> set s"
  shows "\<not> signed_int s"
proof (cases s)
  case Nil
  then show ?thesis
    by (simp add: signed_int_def)
next
  case (Cons c r)
  have n: "\<not> is_digit CHR ''/''"
    by (simp add: is_digit_def)
  from assms n have "\<not> list_all is_digit s"
    by (auto simp add: list_all_iff)
  moreover from assms Cons n have "c = CHR ''-'' \<Longrightarrow> \<not> list_all is_digit r"
    by (auto simp add: list_all_iff)
  ultimately show ?thesis
    using Cons by (auto simp add: signed_int_def is_digits_def)
qed

text \<open>
  The type number of a face type: 0 for \<open>v\<close>, 1 for \<open>v/t\<close>, 2 for \<open>v//n\<close> and 3 for \<open>v/t/n\<close>.
  The token of a corner is of its type and of no earlier one, and splits into its
  indices.
\<close>

lemma corner_token_parse:
  fixes hasT hasN :: bool and v t n :: int
  defines "tok \<equiv> corner_token hasT hasN v t n"
      and "T \<equiv> (if hasT then (if hasN then 3 else 1) else (if hasN then 2 else 0 :: nat))"
  shows "face_type tok = T"
    and "type_test T tok"
    and "to_int (split_on CHR ''/'' tok ! 0) = v"
    and "hasT \<Longrightarrow> to_int (split_on CHR ''/'' tok ! 1) = t"
    and "hasN \<Longrightarrow> to_int (split_on CHR ''/'' tok ! 2) = n"
proof -
  note facts = signed_int_show_int show_int_no_slash show_int_not_Nil to_int_show_int
  have s0: "split_on CHR ''/'' (show_int x) = [show_int x]" for x
    by (simp add: split_on_none show_int_no_slash)
  have s1: "split_on CHR ''/'' (show_int x @ CHR ''/'' # r) = show_int x # split_on CHR ''/'' r"
    for x r
    by (simp add: split_on_append show_int_no_slash)
  have ns: "\<not> signed_int (show_int x @ CHR ''/'' # r)" for x r
    by (rule slash_not_signed_int) simp
  have sp: "split_on CHR ''/'' tok =
      (if hasT then (if hasN then [show_int v, show_int t, show_int n]
                     else [show_int v, show_int t])
       else (if hasN then [show_int v, [], show_int n] else [show_int v]))"
    by (simp add: tok_def corner_token_def s0 s1)
  have sg: "signed_int tok \<longleftrightarrow> \<not> hasT \<and> \<not> hasN"
    using ns by (auto simp add: tok_def corner_token_def facts)
  show "face_type tok = T"
    by (simp add: face_type_def type_test_def sp sg T_def facts)
  show "type_test T tok"
    by (simp add: type_test_def sp sg T_def facts)
  show "to_int (split_on CHR ''/'' tok ! 0) = v"
    by (simp add: sp facts)
  show "to_int (split_on CHR ''/'' tok ! 1) = t" if hasT
    using that by (simp add: sp facts)
  show "to_int (split_on CHR ''/'' tok ! 2) = n" if hasN
    using that by (simp add: sp facts)
qed


lemma corner_token_texture:
  "to_int (split_on CHR ''/'' (corner_token True hasN v t n) ! 1) = t"
  by (rule corner_token_parse(4)) simp

lemma corner_token_normal:
  "to_int (split_on CHR ''/'' (corner_token hasT True v t n) ! 2) = n"
  by (rule corner_token_parse(5)) simp

lemma face_corners_tokens:
  fixes st :: "'n obj_state"
  defines "lenv \<equiv> length (vs st)" and "lent \<equiv> length (vts st)" and "lenn \<equiv> length (vns st)"
  defines "corner \<equiv> \<lambda>hasT hasN v t n. (nat (resolve v lenv),
      (if hasT then Some (nat (resolve t lent)) else None),
      (if hasN then Some (nat (resolve n lenn)) else None))"
  defines "valid \<equiv> \<lambda>hasT hasN v t n. 0 \<le> resolve v lenv \<and> resolve v lenv < int lenv
      \<and> (hasT \<longrightarrow> 0 \<le> resolve t lent \<and> resolve t lent < int lent)
      \<and> (hasN \<longrightarrow> 0 \<le> resolve n lenn \<and> resolve n lenn < int lenn)"
  assumes "valid hasT hasN va ta na" and "valid hasT hasN vb tb nb"
      and "valid hasT hasN vc tc nc"
  shows "face_corners [corner_token hasT hasN va ta na, corner_token hasT hasN vb tb nb,
           corner_token hasT hasN vc tc nc] st =
         Some [corner hasT hasN va ta na, corner hasT hasN vb tb nb, corner hasT hasN vc tc nc]"
proof -
  note p = corner_token_parse(1-3) [of hasT hasN] corner_token_texture corner_token_normal
  show ?thesis
  proof (cases hasT)
    case True
    note hT = True
    show ?thesis
    proof (cases hasN)
      case True
      with hT assms(6-8) p show ?thesis
        by (simp add: face_corners_def Let_def valid_def corner_def lenv_def lent_def lenn_def)
    next
      case False
      with hT assms(6-8) p show ?thesis
        by (simp add: face_corners_def Let_def valid_def corner_def lenv_def lent_def lenn_def)
    qed
  next
    case False
    note hT = False
    show ?thesis
    proof (cases hasN)
      case True
      with hT assms(6-8) p show ?thesis
        by (simp add: face_corners_def Let_def valid_def corner_def lenv_def lent_def lenn_def)
    next
      case False
      with hT assms(6-8) p show ?thesis
        by (simp add: face_corners_def Let_def valid_def corner_def lenv_def lent_def lenn_def)
    qed
  qed
qed

lemma resolve_written:
  assumes "1 \<le> k" and "k \<le> len"
  shows "resolve (written g len k) len = int (len - k)"
  using assms by (simp add: resolve_def written_def)

lemma written_corner_valid:
  fixes st :: "'n obj_state"
  assumes "back_ok hasT hasN st (kv, kt, kn)"
  shows "0 \<le> resolve (written gv (length (vs st)) kv) (length (vs st))
       \<and> resolve (written gv (length (vs st)) kv) (length (vs st)) < int (length (vs st))
       \<and> (hasT \<longrightarrow> 0 \<le> resolve (written gt (length (vts st)) kt) (length (vts st))
                    \<and> resolve (written gt (length (vts st)) kt) (length (vts st))
                        < int (length (vts st)))
       \<and> (hasN \<longrightarrow> 0 \<le> resolve (written gn (length (vns st)) kn) (length (vns st))
                    \<and> resolve (written gn (length (vns st)) kn) (length (vns st))
                        < int (length (vns st)))"
    and "(nat (resolve (written gv (length (vs st)) kv) (length (vs st))),
          (if hasT then Some (nat (resolve (written gt (length (vts st)) kt) (length (vts st))))
           else None),
          (if hasN then Some (nat (resolve (written gn (length (vns st)) kn) (length (vns st))))
           else None)) =
         back_corner hasT hasN st (kv, kt, kn)"
proof -
  from assms have v: "1 \<le> kv" "kv \<le> length (vs st)"
    and t: "hasT \<Longrightarrow> 1 \<le> kt" "hasT \<Longrightarrow> kt \<le> length (vts st)"
    and n: "hasN \<Longrightarrow> 1 \<le> kn" "hasN \<Longrightarrow> kn \<le> length (vns st)"
    by (simp_all add: back_ok_def)
  note rv = resolve_written [OF v]
  note rt = resolve_written [OF t]
  note rn = resolve_written [OF n]
  show "0 \<le> resolve (written gv (length (vs st)) kv) (length (vs st))
       \<and> resolve (written gv (length (vs st)) kv) (length (vs st)) < int (length (vs st))
       \<and> (hasT \<longrightarrow> 0 \<le> resolve (written gt (length (vts st)) kt) (length (vts st))
                    \<and> resolve (written gt (length (vts st)) kt) (length (vts st))
                        < int (length (vts st)))
       \<and> (hasN \<longrightarrow> 0 \<le> resolve (written gn (length (vns st)) kn) (length (vns st))
                    \<and> resolve (written gn (length (vns st)) kn) (length (vns st))
                        < int (length (vns st)))"
    using v t n by (auto simp add: rv rt rn)
  show "(nat (resolve (written gv (length (vs st)) kv) (length (vs st))),
          (if hasT then Some (nat (resolve (written gt (length (vts st)) kt) (length (vts st))))
           else None),
          (if hasN then Some (nat (resolve (written gn (length (vns st)) kn) (length (vns st))))
           else None)) =
         back_corner hasT hasN st (kv, kt, kn)"
    by (simp add: back_corner_def rv rt rn)
qed

lemma written_corner_tokens:
  fixes st :: "'n obj_state"
  assumes "length ks = 3" and "length gs = 3" and "list_all (back_ok hasT hasN st) ks"
  shows "face_corners (map (written_token hasT hasN st) (zip gs ks)) st =
           Some (map (back_corner hasT hasN st) ks)"
proof -
  from assms(1) obtain ka kb kc where ks: "ks = [ka, kb, kc]"
    by (cases ks; cases "tl ks"; cases "tl (tl ks)") auto
  from assms(2) obtain ga gb gc where gs: "gs = [ga, gb, gc]"
    by (cases gs; cases "tl gs"; cases "tl (tl gs)") auto
  obtain va ta na where ka: "ka = (va, ta, na)"
    by (cases ka)
  obtain vb tb nb where kb: "kb = (vb, tb, nb)"
    by (cases kb)
  obtain vc tc nc where kc: "kc = (vc, tc, nc)"
    by (cases kc)
  obtain gva gta gna where ga: "ga = (gva, gta, gna)"
    by (cases ga)
  obtain gvb gtb gnb where gb: "gb = (gvb, gtb, gnb)"
    by (cases gb)
  obtain gvc gtc gnc where gc: "gc = (gvc, gtc, gnc)"
    by (cases gc)
  from assms(3) have a: "back_ok hasT hasN st (va, ta, na)"
    and b: "back_ok hasT hasN st (vb, tb, nb)"
    and c: "back_ok hasT hasN st (vc, tc, nc)"
    by (simp_all add: ks ka kb kc)
  note wa = written_corner_valid [OF a, of gva gta gna]
  note wb = written_corner_valid [OF b, of gvb gtb gnb]
  note wc = written_corner_valid [OF c, of gvc gtc gnc]
  have "face_corners (map (written_token hasT hasN st) (zip gs ks)) st =
      face_corners
        [corner_token hasT hasN (written gva (length (vs st)) va)
           (written gta (length (vts st)) ta) (written gna (length (vns st)) na),
         corner_token hasT hasN (written gvb (length (vs st)) vb)
           (written gtb (length (vts st)) tb) (written gnb (length (vns st)) nb),
         corner_token hasT hasN (written gvc (length (vs st)) vc)
           (written gtc (length (vts st)) tc) (written gnc (length (vns st)) nc)] st"
    by (simp add: ks gs ka kb kc ga gb gc written_token_def)
  also have "\<dots> = Some [back_corner hasT hasN st (va, ta, na),
      back_corner hasT hasN st (vb, tb, nb), back_corner hasT hasN st (vc, tc, nc)]"
    by (simp only: face_corners_tokens [OF wa(1) wb(1) wc(1)] wa(2) wb(2) wc(2))
  finally show ?thesis
    by (simp add: ks ka kb kc)
qed

text \<open>
  Claim C7. In the face parsing of \<open>load_obj\<close> a negative corner index resolves relative
  to the current end of its list. For a face of any of the four types whose three corners
  count back from the ends of \<open>vs\<close>, \<open>vts\<close> and \<open>vns\<close> by counts in range, every index may
  be written as the negative index \<open>-k\<close> or as the 1-based index \<open>len - k + 1\<close> of the same
  entry: however the indices are written (\<open>gs\<close> says which are negative), the line resolves
  to the 0-based positions \<open>len - k\<close> in the three lists, and any two writings of the line
  have the same effect on the state of the loader. Immediately after exactly 3 vertex
  definitions the face \<open>f -1 -2 -3\<close> resolves to the positions 2, 1, 0, the same triangle
  in the same order as \<open>f 3 2 1\<close>.
\<close>

theorem negative_face_indices:
  fixes st :: "'n obj_state"
  assumes "length ks = 3" and "length gs = 3" and "length gs' = 3"
      and "list_all (back_ok hasT hasN st) ks"
  shows "face_corners (map (written_token hasT hasN st) (zip gs ks)) st =
           Some (map (back_corner hasT hasN st) ks)
       \<and> face_corners (map (written_token hasT hasN st) (zip gs' ks)) st =
           Some (map (back_corner hasT hasN st) ks)
       \<and> face vec_str (map (written_token hasT hasN st) (zip gs ks)) st =
         face vec_str (map (written_token hasT hasN st) (zip gs' ks)) st
       \<and> obj_line to_num vec_str (Some (''f'' # map (written_token hasT hasN st) (zip gs ks))) st =
         obj_line to_num vec_str (Some (''f'' # map (written_token hasT hasN st) (zip gs' ks))) st
       \<and> (length (vs st) = 3 \<longrightarrow>
            face_corners [''-1'', ''-2'', ''-3''] st =
              Some [(2, None, None), (1, None, None), (0, None, None)]
            \<and> face_corners [''3'', ''2'', ''1''] st =
              Some [(2, None, None), (1, None, None), (0, None, None)]
            \<and> face vec_str [''-1'', ''-2'', ''-3''] st = face vec_str [''3'', ''2'', ''1''] st
            \<and> obj_line to_num vec_str (Some [''f'', ''-1'', ''-2'', ''-3'']) st =
              obj_line to_num vec_str (Some [''f'', ''3'', ''2'', ''1'']) st)
       \<and> (1 \<le> k \<and> k \<le> len \<longrightarrow>
            resolve (- int k) len = int len - int k
            \<and> resolve (int len - int k + 1) len = int len - int k)"
proof -
  note g = written_corner_tokens [OF assms(1,2,4)]
  note g' = written_corner_tokens [OF assms(1,3,4)]
  have f: "face vec_str (map (written_token hasT hasN st) (zip gs ks)) st =
      face vec_str (map (written_token hasT hasN st) (zip gs' ks)) st"
    by (simp only: face_def g g')
  have l: "obj_line to_num vec_str (Some (''f'' # map (written_token hasT hasN st) (zip gs ks))) st =
      obj_line to_num vec_str (Some (''f'' # map (written_token hasT hasN st) (zip gs' ks))) st"
    by (simp add: obj_line_def f)
  have three: "face_corners [''-1'', ''-2'', ''-3''] st =
        Some [(2, None, None), (1, None, None), (0, None, None)]
      \<and> face_corners [''3'', ''2'', ''1''] st =
        Some [(2, None, None), (1, None, None), (0, None, None)]
      \<and> face vec_str [''-1'', ''-2'', ''-3''] st = face vec_str [''3'', ''2'', ''1''] st
      \<and> obj_line to_num vec_str (Some [''f'', ''-1'', ''-2'', ''-3'']) st =
        obj_line to_num vec_str (Some [''f'', ''3'', ''2'', ''1'']) st"
    if len: "length (vs st) = 3"
  proof -
    have neg: "face_corners [''-1'', ''-2'', ''-3''] st =
        Some [(2, None, None), (1, None, None), (0, None, None)]"
      using len by (simp add: face_corners_def token_simps Let_def)
    have pos: "face_corners [''3'', ''2'', ''1''] st =
        Some [(2, None, None), (1, None, None), (0, None, None)]"
      using len by (simp add: face_corners_def token_simps Let_def)
    have f3: "face vec_str [''-1'', ''-2'', ''-3''] st = face vec_str [''3'', ''2'', ''1''] st"
      by (simp only: face_def neg pos)
    have "obj_line to_num vec_str (Some [''f'', ''-1'', ''-2'', ''-3'']) st =
        obj_line to_num vec_str (Some [''f'', ''3'', ''2'', ''1'']) st"
      by (simp add: obj_line_def f3)
    with neg pos f3 show ?thesis
      by blast
  qed
  have r: "1 \<le> k \<and> k \<le> len \<longrightarrow>
      resolve (- int k) len = int len - int k
      \<and> resolve (int len - int k + 1) len = int len - int k"
    by (auto simp add: resolve_def)
  from g g' f l three r show ?thesis
    by blast
qed

lemmas loader_simps = obj_lines_def obj_line_def init_state_def vec3_def vec2_def face_def
  face_corners_def add_corner_def get_idx_def idx_key_def int_vec_str_def show_int_def
  show_nat.simps mtllib_def mtllib_arg_def token_simps Let_def

lemma twelve_verts_state:
  "obj_lines to_int int_vec_str twelve_verts init_state =
     init_state\<lparr>vs := replicate 11 [0, 0, 0] @ [[5, 6, 7]], vts := [[0, 0], [1, 0]],
                 vns := [[0, 0, 1]]\<rparr>"
  by (simp add: twelve_verts_def loader_simps numeral_eq_Suc)

theorem negative_face_indices_witness:
  "map (written_token True True (obj_lines to_int int_vec_str twelve_verts init_state))
       (zip [(True, True, True), (True, True, True), (True, True, True)]
            [(12, 2, 1), (2, 1, 1), (1, 2, 1)]) =
     [''-12/-2/-1'', ''-2/-1/-1'', ''-1/-2/-1'']
   \<and> map (written_token True True (obj_lines to_int int_vec_str twelve_verts init_state))
       (zip [(False, False, False), (False, True, False), (True, False, False)]
            [(12, 2, 1), (2, 1, 1), (1, 2, 1)]) =
     [''1/1/1'', ''11/-1/1'', ''-1/1/1'']
   \<and> face_corners [''-12/-2/-1'', ''-2/-1/-1'', ''-1/-2/-1'']
         (obj_lines to_int int_vec_str twelve_verts init_state) =
       Some [(0, Some 0, Some 0), (10, Some 1, Some 0), (11, Some 0, Some 0)]
   \<and> obj_line to_int int_vec_str (Some [''f'', ''-12/-2/-1'', ''-2/-1/-1'', ''-1/-2/-1''])
         (obj_lines to_int int_vec_str twelve_verts init_state) =
       obj_line to_int int_vec_str (Some [''f'', ''1/1/1'', ''11/-1/1'', ''-1/1/1''])
         (obj_lines to_int int_vec_str twelve_verts init_state)
   \<and> out_verts (obj_line to_int int_vec_str (Some [''f'', ''1/1/1'', ''11/-1/1'', ''-1/1/1''])
         (obj_lines to_int int_vec_str twelve_verts init_state)) =
       [[0, 0, 0], [0, 0, 0], [5, 6, 7]]
   \<and> out_texCoords (obj_line to_int int_vec_str
         (Some [''f'', ''1/1/1'', ''11/-1/1'', ''-1/1/1''])
         (obj_lines to_int int_vec_str twelve_verts init_state)) =
       [Some [0, 0], Some [1, 0], Some [0, 0]]
   \<and> length (vs (obj_lines to_int int_vec_str three_verts init_state)) = 3
   \<and> face_corners [''-1'', ''-2'', ''-3''] (obj_lines to_int int_vec_str three_verts init_state) =
       Some [(2, None, None), (1, None, None), (0, None, None)]
   \<and> obj_line to_int int_vec_str (Some [''f'', ''-1'', ''-2'', ''-3''])
         (obj_lines to_int int_vec_str three_verts init_state) =
       obj_line to_int int_vec_str (Some [''f'', ''3'', ''2'', ''1''])
         (obj_lines to_int int_vec_str three_verts init_state)
   \<and> out_verts (obj_line to_int int_vec_str (Some [''f'', ''-1'', ''-2'', ''-3''])
         (obj_lines to_int int_vec_str three_verts init_state)) = [[0, 1, 0], [1, 0, 0], [0, 0, 0]]
   \<and> (1::nat) \<le> 2 \<and> (2::nat) \<le> 3 \<and> resolve (- int 2) 3 = 1 \<and> resolve (int 3 - int 2 + 1) 3 = 1"
proof -
  let ?st = "obj_lines to_int int_vec_str twelve_verts init_state"
  let ?ks = "[(12, 2, 1), (2, 1, 1), (1, 2, 1)] :: (nat \<times> nat \<times> nat) list"
  let ?gs = "[(True, True, True), (True, True, True), (True, True, True)]"
  let ?gs' = "[(False, False, False), (False, True, False), (True, False, False)]"
  let ?st3 = "obj_lines to_int int_vec_str three_verts init_state"
  have neg: "map (written_token True True ?st) (zip ?gs ?ks) =
      [''-12/-2/-1'', ''-2/-1/-1'', ''-1/-2/-1'']"
    unfolding twelve_verts_state
    by (simp add: written_token_def written_def corner_token_def show_int_def show_nat.simps)
  have pos: "map (written_token True True ?st) (zip ?gs' ?ks) =
      [''1/1/1'', ''11/-1/1'', ''-1/1/1'']"
    unfolding twelve_verts_state
    by (simp add: written_token_def written_def corner_token_def show_int_def show_nat.simps)
  have corners: "map (back_corner True True ?st) ?ks =
      [(0, Some 0, Some 0), (10, Some 1, Some 0), (11, Some 0, Some 0)]"
    unfolding twelve_verts_state by (simp add: back_corner_def)
  have ok: "list_all (back_ok True True ?st) ?ks"
    unfolding twelve_verts_state by (simp add: back_ok_def)
  have v: "out_verts (obj_line to_int int_vec_str
        (Some [''f'', ''1/1/1'', ''11/-1/1'', ''-1/1/1'']) ?st) = [[0, 0, 0], [0, 0, 0], [5, 6, 7]]"
    and t: "out_texCoords (obj_line to_int int_vec_str
        (Some [''f'', ''1/1/1'', ''11/-1/1'', ''-1/1/1'']) ?st) =
        [Some [0, 0], Some [1, 0], Some [0, 0]]"
    unfolding twelve_verts_state by (simp_all add: loader_simps nth_append)
  have len: "length (vs ?st3) = 3"
    by (simp add: three_verts_def loader_simps)
  have v3: "out_verts (obj_line to_int int_vec_str (Some [''f'', ''3'', ''2'', ''1'']) ?st3) =
      [[0, 1, 0], [1, 0, 0], [0, 0, 0]]"
    by (simp add: three_verts_def loader_simps)
  have l3: "length ?ks = 3" "length ?gs = 3" "length ?gs' = 3"
    by simp_all
  from negative_face_indices [OF l3 ok, of int_vec_str to_int 2 3]
  have "face_corners (map (written_token True True ?st) (zip ?gs ?ks)) ?st =
        Some (map (back_corner True True ?st) ?ks)
      \<and> obj_line to_int int_vec_str
          (Some (''f'' # map (written_token True True ?st) (zip ?gs ?ks))) ?st =
        obj_line to_int int_vec_str
          (Some (''f'' # map (written_token True True ?st) (zip ?gs' ?ks))) ?st
      \<and> resolve (- int 2) 3 = int 3 - int 2 \<and> resolve (int 3 - int 2 + 1) 3 = int 3 - int 2"
    by simp
  then have twelve: "face_corners [''-12/-2/-1'', ''-2/-1/-1'', ''-1/-2/-1''] ?st =
        Some [(0, Some 0, Some 0), (10, Some 1, Some 0), (11, Some 0, Some 0)]
      \<and> obj_line to_int int_vec_str
          (Some [''f'', ''-12/-2/-1'', ''-2/-1/-1'', ''-1/-2/-1'']) ?st =
        obj_line to_int int_vec_str (Some [''f'', ''1/1/1'', ''11/-1/1'', ''-1/1/1'']) ?st
      \<and> resolve (- int 2) 3 = 1 \<and> resolve (int 3 - int 2 + 1) 3 = 1"
    unfolding neg pos corners by simp
  have ok3: "list_all (back_ok False False ?st3) [(1, 0, 0), (2, 0, 0), (3, 0, 0)]"
    by (simp add: back_ok_def len)
  from negative_face_indices [OF _ l3(2,3) ok3, of int_vec_str to_int 2 3] len
  have three: "face_corners [''-1'', ''-2'', ''-3''] ?st3 =
        Some [(2, None, None), (1, None, None), (0, None, None)]
      \<and> obj_line to_int int_vec_str (Some [''f'', ''-1'', ''-2'', ''-3'']) ?st3 =
        obj_line to_int int_vec_str (Some [''f'', ''3'', ''2'', ''1'']) ?st3"
    by simp
  from three v3 have "out_verts (obj_line to_int int_vec_str
      (Some [''f'', ''-1'', ''-2'', ''-3'']) ?st3) = [[0, 1, 0], [1, 0, 0], [0, 0, 0]]"
    by simp
  with twelve three neg pos v t len show ?thesis
    by simp
qed

subsection \<open>The vertex indexer\<close>

lemma get_idx_map_mono:
  "out_map st k = Some i \<Longrightarrow> out_map (snd (get_idx vec_str v t n st)) k = Some i"
  by (auto simp add: get_idx_def Let_def)

lemma get_idx_same:
  "out_map st (idx_key vec_str v t n) = Some i \<Longrightarrow> get_idx vec_str v t n st = (i, st)"
  by (simp add: get_idx_def Let_def)

lemma get_idx_result:
  "get_idx vec_str v t n st = (i, st1) \<Longrightarrow> out_map st1 (idx_key vec_str v t n) = Some i"
  by (auto simp add: get_idx_def Let_def split: if_splits)

lemma get_idx_fresh:
  assumes "get_idx vec_str v t n st = (i, st1)"
      and "out_map st (idx_key vec_str v t n) = None"
      and "length (out_texCoords st) = length (out_verts st)"
      and "length (out_normals st) = length (out_verts st)"
  shows "i = length (out_verts st) \<and> out_verts st1 ! i = v \<and> out_texCoords st1 ! i = t
       \<and> out_normals st1 ! i = n"
  using assms by (auto simp add: get_idx_def Let_def nth_append)

lemma get_idx_aligned:
  assumes "aligned vec_str st"
  shows "aligned vec_str (snd (get_idx vec_str v t n st))"
proof (cases "out_map st (idx_key vec_str v t n)")
  case None
  from assms have len: "length (out_texCoords st) = length (out_verts st)"
      "length (out_normals st) = length (out_verts st)"
    and old: "\<And>k i. out_map st k = Some i \<Longrightarrow> i < length (out_verts st)
        \<and> idx_key vec_str (out_verts st ! i) (out_texCoords st ! i) (out_normals st ! i) = k"
    by (simp_all add: aligned_def)
  let ?st1 = "st\<lparr>out_map := (out_map st)(idx_key vec_str v t n \<mapsto> length (out_verts st)),
                  out_verts := out_verts st @ [v],
                  out_texCoords := out_texCoords st @ [t],
                  out_normals := out_normals st @ [n]\<rparr>"
  have st1: "snd (get_idx vec_str v t n st) = ?st1"
    using None by (simp add: get_idx_def Let_def)
  have "i < length (out_verts ?st1)
      \<and> idx_key vec_str (out_verts ?st1 ! i) (out_texCoords ?st1 ! i) (out_normals ?st1 ! i) = k"
    if "out_map ?st1 k = Some i" for k i
  proof (cases "k = idx_key vec_str v t n")
    case True
    with that have "i = length (out_verts st)"
      by simp
    then show ?thesis
      using True len by (simp add: nth_append)
  next
    case False
    with that have "out_map st k = Some i"
      by simp
    from old [OF this] show ?thesis
      using len by (simp add: nth_append)
  qed
  then show ?thesis
    unfolding st1 using len by (simp add: aligned_def)
next
  case (Some i)
  with assms show ?thesis
    by (simp add: get_idx_def Let_def)
qed

lemma add_corner_map_mono:
  "out_map st k = Some i \<Longrightarrow> out_map (snd (add_corner vec_str corner st)) k = Some i"
  by (cases corner) (simp add: add_corner_def get_idx_map_mono)

lemma add_corner_aligned:
  "aligned vec_str st \<Longrightarrow> aligned vec_str (snd (add_corner vec_str corner st))"
  by (cases corner) (simp add: add_corner_def get_idx_aligned)

lemma face_preserves:
  assumes "P st"
      and "\<And>st x y. P st \<Longrightarrow> P (st\<lparr>hasTexCoord := x, missingNormal := y\<rparr>)"
      and "\<And>st c. P st \<Longrightarrow> P (snd (add_corner vec_str c st))"
      and "\<And>st xs. P st \<Longrightarrow> P (st\<lparr>out_inds := xs\<rparr>)"
  shows "P (face vec_str args st)"
proof (cases "face_corners args st")
  case None
  with assms(1) show ?thesis
    by (simp add: face_def)
next
  case (Some corners)
  let ?hasT = "fst (snd (corners ! 0)) \<noteq> None"
  let ?hasN = "snd (snd (corners ! 0)) \<noteq> None"
  let ?st0 = "st\<lparr>hasTexCoord := (if ?hasT then True else hasTexCoord st),
                  missingNormal := (if ?hasN then missingNormal st else True)\<rparr>"
  let ?r1 = "add_corner vec_str (corners ! 0) ?st0"
  let ?r2 = "add_corner vec_str (corners ! 1) (snd ?r1)"
  let ?r3 = "add_corner vec_str (corners ! 2) (snd ?r2)"
  have "face vec_str args st =
      (snd ?r3)\<lparr>out_inds := out_inds (snd ?r3) @ [fst ?r1, fst ?r2, fst ?r3]\<rparr>"
    using Some by (simp add: face_def Let_def split: prod.splits)
  moreover have "P (snd ?r3)"
    by (intro assms(3) assms(2) assms(1))
  ultimately show ?thesis
    by (simp add: assms(4))
qed

lemma mtllib_preserves:
  assumes "P st"
      and "\<And>st xs. P st \<Longrightarrow> P (st\<lparr>requests := xs\<rparr>)"
      and "\<And>st xs. P st \<Longrightarrow> P (st\<lparr>mtls := xs\<rparr>)"
  shows "P (mtllib args st)"
  unfolding mtllib_def using assms(1)
proof (induction args arbitrary: st)
  case Nil
  then show ?case by simp
next
  case (Cons a args)
  have "P (mtllib_arg a st)"
    using Cons.prems by (simp add: mtllib_arg_def Let_def assms(2,3))
  then show ?case
    by (simp add: Cons.IH)
qed

lemma obj_line_preserves:
  assumes "P st"
      and "\<And>st x y. P st \<Longrightarrow> P (st\<lparr>hasTexCoord := x, missingNormal := y\<rparr>)"
      and "\<And>st c. P st \<Longrightarrow> P (snd (add_corner vec_str c st))"
      and "\<And>st xs. P st \<Longrightarrow> P (st\<lparr>out_inds := xs\<rparr>)"
      and "\<And>st xs. P st \<Longrightarrow> P (st\<lparr>requests := xs\<rparr>)"
      and "\<And>st xs. P st \<Longrightarrow> P (st\<lparr>mtls := xs\<rparr>)"
      and "\<And>st xs. P st \<Longrightarrow> P (st\<lparr>vs := xs\<rparr>)"
      and "\<And>st xs. P st \<Longrightarrow> P (st\<lparr>vns := xs\<rparr>)"
      and "\<And>st xs. P st \<Longrightarrow> P (st\<lparr>vts := xs\<rparr>)"
  shows "P (obj_line to_num vec_str line st)"
proof (cases line)
  case None
  with assms(1) show ?thesis
    by (simp add: obj_line_def)
next
  case (Some toks)
  show ?thesis
  proof (cases toks)
    case Nil
    with Some assms(1) show ?thesis
      by (simp add: obj_line_def)
  next
    case (Cons cmd args)
    have f: "P (face vec_str args st)"
      by (rule face_preserves [of P, OF assms(1-4)])
    have m: "P (mtllib args st)"
      by (rule mtllib_preserves [of P, OF assms(1,5,6)])
    show ?thesis
      using Some Cons f m assms(1,7,8,9) by (simp add: obj_line_def)
  qed
qed

lemma obj_lines_preserves:
  assumes "P st"
      and "\<And>st x y. P st \<Longrightarrow> P (st\<lparr>hasTexCoord := x, missingNormal := y\<rparr>)"
      and "\<And>st c. P st \<Longrightarrow> P (snd (add_corner vec_str c st))"
      and "\<And>st xs. P st \<Longrightarrow> P (st\<lparr>out_inds := xs\<rparr>)"
      and "\<And>st xs. P st \<Longrightarrow> P (st\<lparr>requests := xs\<rparr>)"
      and "\<And>st xs. P st \<Longrightarrow> P (st\<lparr>mtls := xs\<rparr>)"
      and "\<And>st xs. P st \<Longrightarrow> P (st\<lparr>vs := xs\<rparr>)"
      and "\<And>st xs. P st \<Longrightarrow> P (st\<lparr>vns := xs\<rparr>)"
      and "\<And>st xs. P st \<Longrightarrow> P (st\<lparr>vts := xs\<rparr>)"
  shows "P (obj_lines to_num vec_str lines st)"
  unfolding obj_lines_def using assms(1)
proof (induction lines arbitrary: st)
  case Nil
  then show ?case by simp
next
  case (Cons l lines)
  have "P (obj_line to_num vec_str l st)"
    by (rule obj_line_preserves [of P, OF Cons.prems assms(2-9)])
  then show ?case
    by (simp add: Cons.IH)
qed

lemma obj_lines_map_mono:
  assumes "out_map st k = Some i"
  shows "out_map (obj_lines to_num vec_str lines st) k = Some i"
  by (rule obj_lines_preserves [of "\<lambda>st. out_map st k = Some i"])
     (simp_all add: assms add_corner_map_mono)

lemma obj_lines_aligned:
  assumes "aligned vec_str st"
  shows "aligned vec_str (obj_lines to_num vec_str lines st)"
  by (rule obj_lines_preserves [of "aligned vec_str"])
     (simp_all add: assms add_corner_aligned, simp_all add: aligned_def)

lemma aligned_init: "aligned vec_str init_state"
  by (simp add: aligned_def init_state_def)

text \<open>
  Claim C8. In the vertex indexer of \<open>load_obj\<close>, two face corners that resolve to the
  same (position, texture coordinate or none, normal or none) triple receive the same
  output index, whatever their source indices and whatever lines stand between them: once
  \<open>get_idx\<close> has answered \<open>i\<close> for a triple, it answers \<open>i\<close> for it ever after and adds
  nothing. The output sequences stay aligned: they are equally long, the index is within
  them, and its entry in each of the three sequences is the one of a corner with the same
  key (the corner itself when the index was new).
\<close>

theorem get_idx_dedup:
  assumes "st = obj_lines to_num vec_str lines0 init_state"
      and "get_idx vec_str v t n st = (i, st1)"
      and "st2 = obj_lines to_num vec_str lines1 st1"
  shows "get_idx vec_str v t n st2 = (i, st2)
       \<and> (vs st2 ! p' = v \<and> map_option (\<lambda>i. vts st2 ! i) t' = t
            \<and> map_option (\<lambda>i. vns st2 ! i) n' = n
          \<longrightarrow> add_corner vec_str (p', t', n') st2 = (i, st2))
       \<and> aligned vec_str st1 \<and> aligned vec_str st2
       \<and> i < length (out_verts st2)
       \<and> length (out_texCoords st2) = length (out_verts st2)
       \<and> length (out_normals st2) = length (out_verts st2)
       \<and> idx_key vec_str (out_verts st2 ! i) (out_texCoords st2 ! i) (out_normals st2 ! i) =
           idx_key vec_str v t n
       \<and> (out_map st (idx_key vec_str v t n) = None \<longrightarrow>
            out_verts st1 ! i = v \<and> out_texCoords st1 ! i = t \<and> out_normals st1 ! i = n)"
proof -
  let ?k = "idx_key vec_str v t n"
  have a: "aligned vec_str st"
    unfolding assms(1) by (rule obj_lines_aligned [OF aligned_init])
  from get_idx_aligned [OF a, of v t n] assms(2) have a1: "aligned vec_str st1"
    by simp
  have a2: "aligned vec_str st2"
    unfolding assms(3) by (rule obj_lines_aligned [OF a1])
  from get_idx_result [OF assms(2)] have "out_map st1 ?k = Some i" .
  then have m2: "out_map st2 ?k = Some i"
    unfolding assms(3) by (rule obj_lines_map_mono)
  then have again: "get_idx vec_str v t n st2 = (i, st2)"
    by (rule get_idx_same)
  from a2 m2 have entry: "i < length (out_verts st2)
      \<and> idx_key vec_str (out_verts st2 ! i) (out_texCoords st2 ! i) (out_normals st2 ! i) = ?k"
    by (simp add: aligned_def)
  from a2 have len: "length (out_texCoords st2) = length (out_verts st2)"
      "length (out_normals st2) = length (out_verts st2)"
    by (simp_all add: aligned_def)
  from a have len0: "length (out_texCoords st) = length (out_verts st)"
      "length (out_normals st) = length (out_verts st)"
    by (simp_all add: aligned_def)
  have fresh: "out_map st ?k = None \<longrightarrow>
      out_verts st1 ! i = v \<and> out_texCoords st1 ! i = t \<and> out_normals st1 ! i = n"
    using get_idx_fresh [OF assms(2) _ len0] by blast
  have corner: "vs st2 ! p' = v \<and> map_option (\<lambda>i. vts st2 ! i) t' = t
            \<and> map_option (\<lambda>i. vns st2 ! i) n' = n
          \<longrightarrow> add_corner vec_str (p', t', n') st2 = (i, st2)"
    using again by (auto simp add: add_corner_def)
  from again corner a1 a2 entry len fresh show ?thesis
    by blast
qed

theorem get_idx_dedup_witness:
  "fst (get_idx int_vec_str [0, 0, 0] None None
          (obj_lines to_int int_vec_str four_verts init_state)) = 0
   \<and> out_inds (obj_lines to_int int_vec_str [Some [''f'', ''2'', ''3'', ''4'']]
        (snd (get_idx int_vec_str [0, 0, 0] None None
               (obj_lines to_int int_vec_str four_verts init_state)))) = [1, 2, 0]
   \<and> add_corner int_vec_str (3, None, None)
        (obj_lines to_int int_vec_str [Some [''f'', ''2'', ''3'', ''4'']]
          (snd (get_idx int_vec_str [0, 0, 0] None None
                 (obj_lines to_int int_vec_str four_verts init_state)))) =
       (0, obj_lines to_int int_vec_str [Some [''f'', ''2'', ''3'', ''4'']]
          (snd (get_idx int_vec_str [0, 0, 0] None None
                 (obj_lines to_int int_vec_str four_verts init_state))))
   \<and> out_inds (obj_lines to_int int_vec_str
        (four_verts @ [Some [''f'', ''1'', ''2'', ''3''], Some [''f'', ''4'', ''3'', ''2'']])
        init_state) = [0, 1, 2, 0, 2, 1]"
proof -
  let ?st = "obj_lines to_int int_vec_str four_verts init_state"
  let ?r = "get_idx int_vec_str [0, 0, 0] None None ?st"
  let ?st2 = "obj_lines to_int int_vec_str [Some [''f'', ''2'', ''3'', ''4'']] (snd ?r)"
  have i: "fst ?r = 0"
    by (simp add: four_verts_def three_verts_def loader_simps)
  have inds: "out_inds ?st2 = [1, 2, 0]"
    by (simp add: four_verts_def three_verts_def loader_simps)
  have v: "vs ?st2 ! 3 = [0, 0, 0]"
    by (simp add: four_verts_def three_verts_def loader_simps)
  have both: "out_inds (obj_lines to_int int_vec_str
        (four_verts @ [Some [''f'', ''1'', ''2'', ''3''], Some [''f'', ''4'', ''3'', ''2'']])
        init_state) = [0, 1, 2, 0, 2, 1]"
    by (simp add: four_verts_def three_verts_def loader_simps)
  have r: "?r = (0, snd ?r)"
    using i by (simp add: prod_eq_iff)
  from get_idx_dedup [OF refl r refl, of "[Some [''f'', ''2'', ''3'', ''4'']]" 3 None None] v
  have "add_corner int_vec_str (3, None, None) ?st2 = (0, ?st2)"
    by simp
  with i inds both show ?thesis
    by simp
qed

section \<open>Properties of the completion of the load\<close>

lemmas async_simps = obj_loader_def step_def mtl_answer_def image_done_def mtl_done_def
  new_load_def settled_def load_done_def mtl_needed_def mtl_line_def is_map_cmd_def

text \<open>
  Claim C1 fails on the code. A file that names the library \<open>a.mtl\<close> in two \<open>mtllib\<close>
  requests makes one call of \<open>load_mtl\<close> but pushes the name onto \<open>mtls\<close> twice. When the
  one load has reported, success (here with no textures) or failure, every load has
  reported, \<open>loaded_mtls\<close> is 1 and \<open>mtls.length\<close> is 2: \<open>finish_materials\<close> has not been
  called, and \<open>ondone\<close> is not invoked. With the name given once, \<open>finish_materials\<close> is
  called once.
\<close>

theorem duplicate_mtllib_never_finishes:
  "requests (parsed (obj_loader to_int int_vec_str twice_mtllib)) = [''a.mtl'']
   \<and> mtls (parsed (obj_loader to_int int_vec_str twice_mtllib)) = [''a.mtl'', ''a.mtl'']
   \<and> map_option (\<lambda>s. (settled s, loaded_mtls s, finish_calls s))
        (run (\<lambda>name. Some []) [MtlDone 0] (obj_loader to_int int_vec_str twice_mtllib)) =
       Some (True, 1, 0)
   \<and> map_option (\<lambda>s. (settled s, loaded_mtls s, finish_calls s))
        (run (\<lambda>name. None) [MtlDone 0] (obj_loader to_int int_vec_str twice_mtllib)) =
       Some (True, 1, 0)
   \<and> map_option (\<lambda>s. (settled s, loaded_mtls s, finish_calls s))
        (run (\<lambda>name. Some []) [MtlDone 0] (obj_loader to_int int_vec_str once_mtllib)) =
       Some (True, 1, 1)"
  by (simp add: twice_mtllib_def once_mtllib_def async_simps loader_simps)

subsection \<open>One library with one texture\<close>

lemma face_mtls:
  "mtls (face vec_str args st) = mtls st \<and> requests (face vec_str args st) = requests st"
  by (rule face_preserves [of "\<lambda>s. mtls s = mtls st \<and> requests s = requests st"])
     (simp_all add: add_corner_def get_idx_def Let_def split: prod.splits)

lemma obj_line_no_mtllib:
  assumes "mtllib_args line = []"
  shows "mtls (obj_line to_num vec_str line st) = mtls st
       \<and> requests (obj_line to_num vec_str line st) = requests st"
proof (cases line)
  case None
  then show ?thesis
    by (simp add: obj_line_def)
next
  case (Some toks)
  show ?thesis
  proof (cases toks)
    case Nil
    with Some show ?thesis
      by (simp add: obj_line_def)
  next
    case (Cons cmd args)
    with Some assms show ?thesis
      by (simp add: obj_line_def mtllib_args_def mtllib_def face_mtls split: if_splits)
  qed
qed

lemma obj_line_one_mtllib:
  assumes "mtllib_args line = [m]" and "mtls st = []" and "requests st = []"
  shows "mtls (obj_line to_num vec_str line st) = [m]
       \<and> requests (obj_line to_num vec_str line st) = [m]"
proof -
  from assms(1) have "line = Some [''mtllib'', m]"
    by (auto simp add: mtllib_args_def split: option.splits list.splits if_splits)
  with assms(2,3) show ?thesis
    by (simp add: obj_line_def mtllib_def mtllib_arg_def)
qed

lemma obj_lines_no_mtllib:
  "mtllib_names lines = [] \<Longrightarrow>
     mtls (obj_lines to_num vec_str lines st) = mtls st
     \<and> requests (obj_lines to_num vec_str lines st) = requests st"
proof (induction lines arbitrary: st)
  case Nil
  then show ?case
    by (simp add: obj_lines_def)
next
  case (Cons l lines)
  from Cons.prems have l: "mtllib_args l = []" and r: "mtllib_names lines = []"
    by (simp_all add: mtllib_names_def)
  from Cons.IH [OF r, of "obj_line to_num vec_str l st"] obj_line_no_mtllib [OF l, of to_num vec_str st]
  show ?case
    by (simp add: obj_lines_def)
qed

lemma obj_lines_one_mtllib:
  "mtllib_names lines = [m] \<Longrightarrow> mtls st = [] \<Longrightarrow> requests st = [] \<Longrightarrow>
     mtls (obj_lines to_num vec_str lines st) = [m]
     \<and> requests (obj_lines to_num vec_str lines st) = [m]"
proof (induction lines arbitrary: st)
  case Nil
  then show ?case
    by (simp add: mtllib_names_def)
next
  case (Cons l lines)
  from Cons.prems(1) have "mtllib_args l @ mtllib_names lines = [m]"
    by (simp add: mtllib_names_def)
  then consider "mtllib_args l = []" and "mtllib_names lines = [m]"
    | "mtllib_args l = [m]" and "mtllib_names lines = []"
    by (auto simp add: append_eq_Cons_conv)
  then show ?case
  proof cases
    case 1
    from obj_line_no_mtllib [OF 1(1), of to_num vec_str st] Cons.prems(2,3)
    have "mtls (obj_line to_num vec_str l st) = []" "requests (obj_line to_num vec_str l st) = []"
      by simp_all
    from Cons.IH [OF 1(2) this] show ?thesis
      by (simp add: obj_lines_def)
  next
    case 2
    from obj_line_one_mtllib [OF 2(1) Cons.prems(2,3), of to_num vec_str]
      obj_lines_no_mtllib [OF 2(2), of to_num vec_str "obj_line to_num vec_str l st"]
    show ?thesis
      by (simp add: obj_lines_def)
  qed
qed

text \<open>
  The three stages of a load with one library \<open>m\<close> that creates one image: requested,
  library loaded and image awaited, all reported.
\<close>

lemma stage0_step:
  assumes "loads s = [new_load m]" and "mtls (parsed s) = [m]" and "loaded_mtls s = 0"
      and "finish_calls s = 0" and "fs m = Some mtl" and "mtl_needed mtl = 1"
      and "step fs e s = Some s1"
  shows "e = MtlDone 0
       \<and> loads s1 = [\<lparr>url = m, answered = True, needed_txts = 1, loaded_txts = 0,
                        images = [False]\<rparr>]
       \<and> mtls (parsed s1) = [m] \<and> loaded_mtls s1 = 0 \<and> finish_calls s1 = 0"
proof (cases e)
  case (MtlDone r)
  with assms show ?thesis
    by (auto simp add: step_def mtl_answer_def new_load_def Let_def split: if_splits)
next
  case (ImageLoad r k)
  with assms show ?thesis
    by (auto simp add: step_def image_done_def new_load_def split: if_splits)
next
  case (ImageError r k)
  with assms show ?thesis
    by (auto simp add: step_def image_done_def new_load_def split: if_splits)
qed

lemma stage1_step:
  assumes "loads s = [\<lparr>url = m, answered = True, needed_txts = 1, loaded_txts = 0,
                        images = [False]\<rparr>]"
      and "mtls (parsed s) = [m]" and "loaded_mtls s = 0" and "finish_calls s = 0"
      and "step fs e s = Some s1"
  shows "(e = ImageLoad 0 0 \<or> e = ImageError 0 0)
       \<and> loads s1 = [\<lparr>url = m, answered = True, needed_txts = 1, loaded_txts = 1,
                        images = [True]\<rparr>]
       \<and> finish_calls s1 = 1"
proof (cases e)
  case (MtlDone r)
  with assms show ?thesis
    by (auto simp add: step_def mtl_answer_def split: if_splits)
next
  case (ImageLoad r k)
  with assms show ?thesis
    by (auto simp add: step_def image_done_def mtl_done_def Let_def split: if_splits)
next
  case (ImageError r k)
  with assms show ?thesis
    by (auto simp add: step_def image_done_def mtl_done_def Let_def split: if_splits)
qed

lemma stage2_step:
  assumes "loads s = [\<lparr>url = m, answered = True, needed_txts = 1, loaded_txts = 1,
                        images = [True]\<rparr>]"
  shows "step fs e s = None"
proof -
  have no: "\<not> (r < length (loads s) \<and> k < length (images (loads s ! r))
            \<and> \<not> images (loads s ! r) ! k)" for r k
  proof (cases r)
    case 0
    then show ?thesis
      using assms by (cases k) auto
  next
    case (Suc r')
    then show ?thesis
      using assms by simp
  qed
  have "image_done r k s = None" for r k
    unfolding image_done_def using no [of r k] by (simp only: if_False)
  moreover have "mtl_answer fs r s = None" for r
    using assms by (cases r) (simp_all add: mtl_answer_def)
  ultimately show ?thesis
    by (cases e) (simp_all add: step_def)
qed

lemma run_Cons_Some:
  "run fs (e # es) s = Some s' \<Longrightarrow> \<exists>s1. step fs e s = Some s1 \<and> run fs es s1 = Some s'"
  by (cases "step fs e s") simp_all

lemma stage0_run:
  assumes "loads s = [new_load m]" and "mtls (parsed s) = [m]" and "loaded_mtls s = 0"
      and "finish_calls s = 0" and "fs m = Some mtl" and "mtl_needed mtl = 1"
  shows "map_option finish_calls (run fs [MtlDone 0, ImageLoad 0 0] s) = Some 1
       \<and> map_option finish_calls (run fs [MtlDone 0, ImageError 0 0] s) = Some 1"
  using assms
  by (simp add: step_def mtl_answer_def image_done_def mtl_done_def new_load_def Let_def)

text \<open>
  Claim C9. For an OBJ file whose \<open>mtllib\<close> lines name one material library \<open>m\<close>, where
  the file \<open>m\<close> loads and creates one texture image: in every sequence of events that can
  occur, \<open>finish_materials\<close> (which alone calls the completion callback) has been called
  only if both the library and its image have reported, and then exactly once. The
  sequences that can occur are the prefixes of: the library reports, then the image
  reports by \<open>load\<close> or by \<open>error\<close>; the image exists only once its library has loaded,
  so no other order of the two reports occurs. Both full sequences occur and end with
  one call.
\<close>

theorem completion_waits_for_texture:
  assumes "mtllib_names lines = [m]" and "fs m = Some mtl" and "mtl_needed mtl = 1"
      and "run fs es (obj_loader to_num vec_str lines) = Some s"
  shows "(es = [] \<or> es = [MtlDone 0] \<or> es = [MtlDone 0, ImageLoad 0 0]
            \<or> es = [MtlDone 0, ImageError 0 0])
       \<and> finish_calls s =
           (if MtlDone 0 \<in> set es \<and> (ImageLoad 0 0 \<in> set es \<or> ImageError 0 0 \<in> set es)
            then 1 else 0)
       \<and> (0 < finish_calls s \<longrightarrow>
            MtlDone 0 \<in> set es \<and> (ImageLoad 0 0 \<in> set es \<or> ImageError 0 0 \<in> set es))
       \<and> map_option finish_calls
            (run fs [MtlDone 0, ImageLoad 0 0] (obj_loader to_num vec_str lines)) = Some 1
       \<and> map_option finish_calls
            (run fs [MtlDone 0, ImageError 0 0] (obj_loader to_num vec_str lines)) = Some 1"
proof -
  let ?s0 = "obj_loader to_num vec_str lines"
  have p: "mtls (obj_lines to_num vec_str lines init_state) = [m]
      \<and> requests (obj_lines to_num vec_str lines init_state) = [m]"
    by (rule obj_lines_one_mtllib [OF assms(1)]) (simp_all add: init_state_def)
  then have s0: "loads ?s0 = [new_load m]" "mtls (parsed ?s0) = [m]" "loaded_mtls ?s0 = 0"
      "finish_calls ?s0 = 0"
    by (simp_all add: obj_loader_def Let_def)
  note full = stage0_run [where fs = fs and m = m and mtl = mtl, OF s0 assms(2,3)]
  have sched: "(es = [] \<or> es = [MtlDone 0] \<or> es = [MtlDone 0, ImageLoad 0 0]
            \<or> es = [MtlDone 0, ImageError 0 0])
       \<and> finish_calls s =
           (if MtlDone 0 \<in> set es \<and> (ImageLoad 0 0 \<in> set es \<or> ImageError 0 0 \<in> set es)
            then 1 else 0)"
  proof (cases es)
    case Nil
    with assms(4) s0(4) show ?thesis
      by simp
  next
    case es: (Cons e1 es1)
    from assms(4) have "run fs (e1 # es1) ?s0 = Some s"
      by (simp only: es)
    then obtain s1 where st1: "step fs e1 ?s0 = Some s1" and r1: "run fs es1 s1 = Some s"
      by (blast dest: run_Cons_Some)
    note a = stage0_step [where fs = fs and m = m and mtl = mtl, OF s0 assms(2,3) st1]
    show ?thesis
    proof (cases es1)
      case Nil
      with r1 a es show ?thesis
        by simp
    next
      case es1: (Cons e2 es2)
      from r1 have "run fs (e2 # es2) s1 = Some s"
        by (simp only: es1)
      then obtain s2 where st2: "step fs e2 s1 = Some s2" and r2: "run fs es2 s2 = Some s"
        by (blast dest: run_Cons_Some)
      from a have b: "(e2 = ImageLoad 0 0 \<or> e2 = ImageError 0 0)
          \<and> loads s2 = [\<lparr>url = m, answered = True, needed_txts = 1, loaded_txts = 1,
                           images = [True]\<rparr>]
          \<and> finish_calls s2 = 1"
        by (intro stage1_step [OF _ _ _ _ st2]) simp_all
      show ?thesis
      proof (cases es2)
        case Nil
        with r2 a b es es1 show ?thesis
          by auto
      next
        case (Cons e3 es3)
        from b have "step fs e3 s2 = None"
          by (intro stage2_step) simp
        with r2 Cons show ?thesis
          by simp
      qed
    qed
  qed
  then have "0 < finish_calls s \<longrightarrow>
      MtlDone 0 \<in> set es \<and> (ImageLoad 0 0 \<in> set es \<or> ImageError 0 0 \<in> set es)"
    by (simp split: if_splits)
  with sched full show ?thesis
    by blast
qed

theorem completion_waits_for_texture_witness:
  "mtllib_names once_mtllib = [''a.mtl''] \<and> mtl_needed one_texture = 1
   \<and> map_option finish_calls
        (run (\<lambda>name. Some one_texture) [MtlDone 0] (obj_loader to_int int_vec_str once_mtllib)) =
       Some 0
   \<and> map_option finish_calls
        (run (\<lambda>name. Some one_texture) [MtlDone 0, ImageError 0 0]
           (obj_loader to_int int_vec_str once_mtllib)) = Some 1
   \<and> run (\<lambda>name. Some one_texture) [ImageLoad 0 0, MtlDone 0]
        (obj_loader to_int int_vec_str once_mtllib) = None"
proof -
  let ?fs = "\<lambda>name :: string. Some one_texture"
  let ?s0 = "obj_loader to_int int_vec_str once_mtllib"
  have n: "mtllib_names once_mtllib = [''a.mtl'']"
    by (simp add: mtllib_names_def mtllib_args_def once_mtllib_def)
  have t: "mtl_needed one_texture = 1"
    by (simp add: one_texture_def async_simps)
  have f: "?fs ''a.mtl'' = Some one_texture"
    by simp
  obtain s where r: "run ?fs [MtlDone 0] ?s0 = Some s"
    by (simp add: once_mtllib_def async_simps loader_simps t Let_def)
  from completion_waits_for_texture [where fs = ?fs, OF n f t r]
  have one: "finish_calls s = 0"
    and two: "map_option finish_calls (run ?fs [MtlDone 0, ImageError 0 0] ?s0) = Some 1"
    by simp_all
  have three: "run ?fs [ImageLoad 0 0, MtlDone 0] ?s0 = None"
  proof (cases "run ?fs [ImageLoad 0 0, MtlDone 0] ?s0")
    case None
    then show ?thesis .
  next
    case (Some s')
    from completion_waits_for_texture [where fs = ?fs, OF n f t Some] show ?thesis
      by simp
  qed
  from n t r one two three show ?thesis
    by simp
qed

subsection \<open>When the completion is reached\<close>

lemma filter_update_count:
  "r < length xs \<Longrightarrow> \<not> P (xs ! r) \<Longrightarrow>
     length (filter P (xs[r := y])) = length (filter P xs) + (if P y then 1 else 0)"
proof (induction xs arbitrary: r)
  case Nil
  then show ?case by simp
next
  case (Cons x xs)
  then show ?case
    by (cases r) simp_all
qed

lemma list_all_update: "list_all Q xs \<Longrightarrow> Q y \<Longrightarrow> list_all Q (xs[r := y])"
  by (induction xs arbitrary: r) (simp_all split: nat.splits)

lemma filter_all_iff: "length (filter P xs) = length xs \<longleftrightarrow> list_all P xs"
proof (induction xs)
  case Nil
  then show ?case by simp
next
  case (Cons x xs)
  have le: "length (filter P xs) \<le> length xs"
    by (rule length_filter_le)
  show ?case
  proof (cases "P x")
    case True
    with Cons show ?thesis by simp
  next
    case False
    with le show ?thesis by (simp del: length_filter_le)
  qed
qed

lemma filter_done_le: "length (filter load_done ls) \<le> length ls"
  by (rule length_filter_le)

lemma not_done_less:
  assumes "r < length ls" and "\<not> load_done (ls ! r)"
  shows "length (filter load_done ls) < length ls"
proof -
  from assms(1) have "ls ! r \<in> set ls"
    by simp
  then show ?thesis
    using assms(2) by (rule length_filter_less)
qed

lemma counted_update:
  assumes "counted s" and "r < length (loads s)" and "\<not> load_done (loads s ! r)"
      and "load_wf l'"
  shows "counted (if load_done l' then mtl_done (s\<lparr>loads := (loads s)[r := l']\<rparr>)
                  else s\<lparr>loads := (loads s)[r := l']\<rparr>)"
proof -
  let ?N = "length (mtls (parsed s))"
  from assms(1) have wf: "list_all load_wf (loads s)"
    and k: "loaded_mtls s = length (filter load_done (loads s))"
    and ln: "length (loads s) \<le> ?N"
    and f: "finish_calls s = (if loaded_mtls s = ?N then 1 else 0)"
    by (simp_all add: counted_def)
  from not_done_less [OF assms(2,3)] k ln have less: "loaded_mtls s < ?N"
    by simp
  with f have f0: "finish_calls s = 0"
    by simp
  have wf': "list_all load_wf ((loads s)[r := l'])"
    by (rule list_all_update [OF wf assms(4)])
  have k': "length (filter load_done ((loads s)[r := l'])) =
      loaded_mtls s + (if load_done l' then 1 else 0)"
    using filter_update_count [where P = load_done and xs = "loads s" and r = r and y = l',
        OF assms(2,3)] k by simp
  show ?thesis
    using wf' k' ln less f0 by (simp add: counted_def mtl_done_def Let_def)
qed

lemma image_done_counted:
  assumes c: "counted s" and i: "image_done r k s = Some s'"
  shows "counted s' \<and> mtls (parsed s') = mtls (parsed s) \<and> length (loads s') = length (loads s)"
proof -
  let ?l = "loads s ! r"
  let ?l' = "?l\<lparr>loaded_txts := loaded_txts ?l + 1, images := (images ?l)[k := True]\<rparr>"
  let ?s1 = "s\<lparr>loads := (loads s)[r := ?l']\<rparr>"
  from c have wf: "list_all load_wf (loads s)"
    by (simp add: counted_def)
  from i have r: "r < length (loads s)" and kk: "k < length (images ?l)"
    and nf: "\<not> images ?l ! k"
    by (simp_all add: image_done_def split: if_splits)
  from wf r have wfl: "load_wf ?l"
    by (simp add: list_all_length)
  then have n: "needed_txts ?l = length (images ?l)"
    by (simp add: load_wf_def)
  from nf kk have nd: "\<not> load_done ?l"
    by (auto simp add: load_done_def list_all_length)
  from wfl kk have ans: "answered ?l"
    by (auto simp add: load_wf_def)
  have cnt: "length (filter (\<lambda>b. b) ((images ?l)[k := True])) = loaded_txts ?l + 1"
    using filter_update_count [where P = "\<lambda>b. b" and xs = "images ?l" and r = k and y = True,
        OF kk] nf wfl by (simp add: load_wf_def)
  have wfl': "load_wf ?l'"
    using wfl ans cnt by (simp add: load_wf_def)
  have "load_done ?l' \<longleftrightarrow> list_all (\<lambda>b. b) ((images ?l)[k := True])"
    using ans by (simp add: load_done_def)
  also have "\<dots> \<longleftrightarrow> length (filter (\<lambda>b. b) ((images ?l)[k := True]))
      = length ((images ?l)[k := True])"
    by (rule filter_all_iff [symmetric])
  also have "\<dots> \<longleftrightarrow> loaded_txts ?l + 1 = needed_txts ?l"
    by (simp only: cnt n length_list_update)
  also have "\<dots> \<longleftrightarrow> needed_txts ?l' = loaded_txts ?l'"
    by auto
  finally have d: "(needed_txts ?l' = loaded_txts ?l') = load_done ?l'"
    by (rule sym)
  from i r kk nf have "s' = (if needed_txts ?l' = loaded_txts ?l' then mtl_done ?s1 else ?s1)"
    by (simp add: image_done_def Let_def del: One_nat_def add_Suc_right)
  then have s': "s' = (if load_done ?l' then mtl_done ?s1 else ?s1)"
    by (simp only: d)
  from counted_update [OF c r nd wfl'] show ?thesis
    unfolding s' by (simp add: mtl_done_def Let_def)
qed

lemma mtl_answer_counted:
  assumes c: "counted s" and a: "mtl_answer fs r s = Some s'"
  shows "counted s' \<and> mtls (parsed s') = mtls (parsed s) \<and> length (loads s') = length (loads s)"
proof -
  let ?l = "loads s ! r"
  from c have wf: "list_all load_wf (loads s)"
    by (simp add: counted_def)
  from a have r: "r < length (loads s)" and na: "\<not> answered ?l"
    by (simp_all add: mtl_answer_def split: if_splits)
  from wf r have wfl: "load_wf ?l"
    by (simp add: list_all_length)
  with na have im: "images ?l = []" "needed_txts ?l = 0" "loaded_txts ?l = 0"
    by (auto simp add: load_wf_def)
  from na have nd: "\<not> load_done ?l"
    by (simp add: load_done_def)
  show ?thesis
  proof (cases "fs (url ?l)")
    case None
    let ?l' = "?l\<lparr>answered := True\<rparr>"
    have wfl': "load_wf ?l'" and d: "load_done ?l'"
      using im by (simp_all add: load_wf_def load_done_def)
    from a r na None have s': "s' = mtl_done (s\<lparr>loads := (loads s)[r := ?l']\<rparr>)"
      by (simp add: mtl_answer_def)
    from counted_update [OF c r nd wfl'] d show ?thesis
      unfolding s' by (simp add: mtl_done_def Let_def)
  next
    case (Some lines)
    let ?n = "mtl_needed lines"
    let ?l' = "?l\<lparr>answered := True, needed_txts := ?n, images := replicate ?n False\<rparr>"
    let ?s1 = "s\<lparr>loads := (loads s)[r := ?l']\<rparr>"
    have wfl': "load_wf ?l'"
      using im by (simp add: load_wf_def)
    have d: "(?n = 0) = load_done ?l'"
      by (cases ?n) (simp_all add: load_done_def)
    from a r na Some have "s' = (if ?n = 0 then mtl_done ?s1 else ?s1)"
      by (simp add: mtl_answer_def Let_def)
    then have s': "s' = (if load_done ?l' then mtl_done ?s1 else ?s1)"
      by (simp only: d)
    from counted_update [OF c r nd wfl'] show ?thesis
      unfolding s' by (simp add: mtl_done_def Let_def)
  qed
qed

lemma step_counted:
  assumes "counted s" and "step fs e s = Some s'"
  shows "counted s' \<and> mtls (parsed s') = mtls (parsed s) \<and> length (loads s') = length (loads s)"
proof (cases e)
  case (MtlDone r)
  with assms(2) have "mtl_answer fs r s = Some s'"
    by (simp add: step_def)
  with assms(1) show ?thesis
    by (rule mtl_answer_counted)
next
  case (ImageLoad r k)
  with assms(2) have "image_done r k s = Some s'"
    by (simp add: step_def)
  with assms(1) show ?thesis
    by (rule image_done_counted)
next
  case (ImageError r k)
  with assms(2) have "image_done r k s = Some s'"
    by (simp add: step_def)
  with assms(1) show ?thesis
    by (rule image_done_counted)
qed

lemma run_counted:
  "counted s \<Longrightarrow> run fs es s = Some s' \<Longrightarrow>
     counted s' \<and> mtls (parsed s') = mtls (parsed s) \<and> length (loads s') = length (loads s)"
proof (induction es arbitrary: s)
  case Nil
  then show ?case by simp
next
  case (Cons e es)
  from Cons.prems(2) obtain s1 where st: "step fs e s = Some s1" and r: "run fs es s1 = Some s'"
    by (blast dest: run_Cons_Some)
  from step_counted [OF Cons.prems(1) st] Cons.IH [OF _ r] show ?case
    by simp
qed

subsection \<open>The libraries that a file requests\<close>

lemma mtllib_arg_requests:
  assumes "distinct (requests st)" and "set (requests st) = set (mtls st)"
  shows "distinct (requests (mtllib_arg mtl st))
       \<and> set (requests (mtllib_arg mtl st)) = set (mtls (mtllib_arg mtl st))
       \<and> mtls (mtllib_arg mtl st) = mtls st @ [mtl]"
  using assms by (auto simp add: mtllib_arg_def Let_def)

lemma mtllib_requests:
  "distinct (requests st) \<Longrightarrow> set (requests st) = set (mtls st) \<Longrightarrow>
     distinct (requests (mtllib args st))
     \<and> set (requests (mtllib args st)) = set (mtls (mtllib args st))
     \<and> mtls (mtllib args st) = mtls st @ args"
  unfolding mtllib_def
proof (induction args arbitrary: st)
  case Nil
  then show ?case by simp
next
  case (Cons a args)
  from mtllib_arg_requests [OF Cons.prems, of a]
    Cons.IH [of "mtllib_arg a st"]
  show ?case
    by simp
qed

lemma obj_line_requests:
  assumes "distinct (requests st)" and "set (requests st) = set (mtls st)"
  shows "distinct (requests (obj_line to_num vec_str line st))
       \<and> set (requests (obj_line to_num vec_str line st)) =
           set (mtls (obj_line to_num vec_str line st))
       \<and> mtls (obj_line to_num vec_str line st) = mtls st @ mtllib_args line"
proof (cases "mtllib_args line = []")
  case True
  from obj_line_no_mtllib [OF True, of to_num vec_str st] assms True show ?thesis
    by simp
next
  case False
  then obtain args where "line = Some (''mtllib'' # args)"
    by (auto simp add: mtllib_args_def split: option.splits list.splits if_splits)
  with mtllib_requests [OF assms, of args] show ?thesis
    by (simp add: obj_line_def mtllib_args_def)
qed

lemma obj_lines_requests:
  "distinct (requests st) \<Longrightarrow> set (requests st) = set (mtls st) \<Longrightarrow>
     distinct (requests (obj_lines to_num vec_str lines st))
     \<and> set (requests (obj_lines to_num vec_str lines st)) =
         set (mtls (obj_lines to_num vec_str lines st))
     \<and> mtls (obj_lines to_num vec_str lines st) = mtls st @ mtllib_names lines"
proof (induction lines arbitrary: st)
  case Nil
  then show ?case
    by (simp add: obj_lines_def mtllib_names_def)
next
  case (Cons l lines)
  from obj_line_requests [OF Cons.prems, of to_num vec_str l]
    Cons.IH [of "obj_line to_num vec_str l st"]
  show ?case
    by (simp add: obj_lines_def mtllib_names_def)
qed

lemma obj_loader_counted:
  "counted (obj_loader to_num vec_str lines)
   \<and> mtls (parsed (obj_loader to_num vec_str lines)) = mtllib_names lines
   \<and> (length (loads (obj_loader to_num vec_str lines)) = length (mtllib_names lines)
        \<longleftrightarrow> distinct (mtllib_names lines))"
proof -
  let ?st = "obj_lines to_num vec_str lines init_state"
  from obj_lines_requests [of init_state to_num vec_str lines]
  have d: "distinct (requests ?st)" and e: "set (requests ?st) = set (mtllib_names lines)"
    and m: "mtls ?st = mtllib_names lines"
    by (simp_all add: init_state_def)
  from d e have len: "length (requests ?st) = card (set (mtllib_names lines))"
    by (simp add: distinct_card [symmetric])
  then have le: "length (requests ?st) \<le> length (mtllib_names lines)"
    by (simp add: card_length)
  have eq: "length (requests ?st) = length (mtllib_names lines) \<longleftrightarrow> distinct (mtllib_names lines)"
    unfolding len by (auto simp add: card_distinct distinct_card)
  have nd: "filter load_done (map new_load (requests ?st)) = []"
    by (simp add: filter_empty_conv load_done_def new_load_def)
  have wf: "list_all load_wf (map new_load (requests ?st))"
    by (simp add: list_all_iff load_wf_def new_load_def)
  have "counted (obj_loader to_num vec_str lines)"
    using nd wf le m by (auto simp add: counted_def obj_loader_def Let_def)
  with m eq show ?thesis
    by (simp add: obj_loader_def Let_def)
qed

text \<open>
  In every state that the events can lead to, \<open>finish_materials\<close> has been called once if
  the load is settled and no library is named twice, and not at all otherwise.
\<close>

lemma finish_calls_characterised:
  assumes "run fs es (obj_loader to_num vec_str lines) = Some s"
  shows "finish_calls s = (if settled s \<and> distinct (mtllib_names lines) then 1 else 0)"
proof -
  let ?s0 = "obj_loader to_num vec_str lines"
  from obj_loader_counted [of to_num vec_str lines]
  have c0: "counted ?s0" and m0: "mtls (parsed ?s0) = mtllib_names lines"
    and d0: "length (loads ?s0) = length (mtllib_names lines) \<longleftrightarrow> distinct (mtllib_names lines)"
    by simp_all
  from run_counted [OF c0 assms] have c: "counted s" and m: "mtls (parsed s) = mtls (parsed ?s0)"
    and l: "length (loads s) = length (loads ?s0)"
    by simp_all
  let ?K = "length (filter load_done (loads s))"
  from c have k: "loaded_mtls s = ?K" and ln: "length (loads s) \<le> length (mtllib_names lines)"
    and f: "finish_calls s = (if loaded_mtls s = length (mtllib_names lines) then 1 else 0)"
    by (simp_all add: counted_def m m0)
  have kl: "?K \<le> length (loads s)"
    by (rule length_filter_le)
  have a: "settled s \<longleftrightarrow> ?K = length (loads s)"
    by (simp add: settled_def filter_all_iff)
  have b: "distinct (mtllib_names lines) \<longleftrightarrow> length (loads s) = length (mtllib_names lines)"
    using d0 l by simp
  have "settled s \<and> distinct (mtllib_names lines) \<longleftrightarrow>
      loaded_mtls s = length (mtllib_names lines)"
  proof
    assume "settled s \<and> distinct (mtllib_names lines)"
    with a b k show "loaded_mtls s = length (mtllib_names lines)"
      by simp
  next
    assume "loaded_mtls s = length (mtllib_names lines)"
    with k kl ln have "?K = length (loads s)" and "length (loads s) = length (mtllib_names lines)"
      by (simp_all del: length_filter_le)
    with a b show "settled s \<and> distinct (mtllib_names lines)"
      by simp
  qed
  with f show ?thesis
    by simp
qed

end
